theory Spec2Isabelle
  imports Main "HOL-Library.Word" "HOL-Library.Sublist"
begin

section \<open>Result limiter\<close>

text \<open>
  \<^verbatim>\<open>limiter(data, limit)\<close> of \<^verbatim>\<open>utils.py\<close> receives any iterable. Only the
  distinction made by \<^verbatim>\<open>isinstance(data, list)\<close> matters to it, so an iterable is
  either a concrete list of items or some other iterable object (a tuple, a generator,
  a paginated result), which stays opaque.
\<close>

datatype ('a, 'b) iterable = PyList "'a list" | NonList 'b

text \<open>
  The Python slice \<^verbatim>\<open>data[:n]\<close>: a negative bound counts from the end of the list,
  and every bound is clipped to the list.
\<close>

definition slice_upto :: "'a list \<Rightarrow> int \<Rightarrow> 'a list" where
  "slice_upto xs n =
     (if n < 0 then take (nat (int (length xs) + n)) xs else take (nat n) xs)"

definition limiter :: "('a, 'b) iterable \<Rightarrow> int option \<Rightarrow> ('a, 'b) iterable" where
  "limiter data limit =
     (case limit of
        None \<Rightarrow> data
      | Some n \<Rightarrow> (case data of PyList xs \<Rightarrow> PyList (slice_upto xs n) | NonList x \<Rightarrow> NonList x))"

section \<open>Content decoder\<close>

text \<open>
  Bytes are 8-bit words; a Python \<^verbatim>\<open>str\<close> obtained by decoding bytes is the list of
  its Unicode code points. The exceptions that the modelled code and its libraries can
  raise are the values of one datatype; a computation that can raise returns a sum with
  the exception on the left.
\<close>

type_synonym byte = "8 word"

datatype error =
    ValueError | BinasciiError | UnicodeDecodeError | UnicodeEncodeError
  | TypeError | AttributeError | RecursionError
  | FileExistsError | FileNotFoundError | NotADirectoryError | IsADirectoryError
  | UnknownObjectException | GithubException | ConnectionError

subsection \<open>\<^verbatim>\<open>base64.b64decode\<close>\<close>

text \<open>
  The base64 alphabet, as the table of the decoder (a character to its 6-bit value) and
  the table of the encoder.
\<close>

definition table_b2a_base64 :: "nat \<Rightarrow> char" where
  "table_b2a_base64 n =
     (if n < 26 then char_of (65 + n)
      else if n < 52 then char_of (71 + n)
      else if n < 62 then char_of (n - 4)
      else if n = 62 then CHR ''+'' else CHR ''/'')"

definition table_a2b_base64 :: "char \<Rightarrow> nat option" where
  "table_a2b_base64 c =
     (let k = (of_char c :: nat) in
      if 65 \<le> k \<and> k \<le> 90 then Some (k - 65)
      else if 97 \<le> k \<and> k \<le> 122 then Some (k - 71)
      else if 48 \<le> k \<and> k \<le> 57 then Some (k + 4)
      else if k = 43 then Some 62
      else if k = 47 then Some 63
      else None)"

text \<open>
  \<^verbatim>\<open>binascii.a2b_base64\<close> in its default, non-strict mode. The loop reads one
  character at a time and carries the position in the current group of four
  (\<open>quad_pos\<close>), the bits left over from the previous character (\<open>leftchar\<close>) and
  the number of padding characters just seen (\<open>pads\<close>). Characters outside the
  alphabet are skipped; a padding character ends the input once it completes a group;
  input that ends inside a group is an error. The C code builds each byte with shifts
  and a bitwise or of disjoint bit ranges, which is the sum written here.
\<close>

fun a2b_base64 :: "string \<Rightarrow> nat \<Rightarrow> nat \<Rightarrow> nat \<Rightarrow> byte list \<Rightarrow> error + byte list" where
  "a2b_base64 [] quad_pos leftchar pads out =
     (if quad_pos = 0 then Inr out else Inl BinasciiError)"
| "a2b_base64 (c # cs) quad_pos leftchar pads out =
     (if c = CHR ''='' then
        (if quad_pos \<ge> 2 then
           (if quad_pos + (pads + 1) \<ge> 4 then Inr out
            else a2b_base64 cs quad_pos leftchar (pads + 1) out)
         else a2b_base64 cs quad_pos leftchar pads out)
      else
        (case table_a2b_base64 c of
           None \<Rightarrow> a2b_base64 cs quad_pos leftchar pads out
         | Some this_ch \<Rightarrow>
             (if quad_pos = 0 then a2b_base64 cs 1 this_ch 0 out
              else if quad_pos = 1 then
                a2b_base64 cs 2 (this_ch mod 16) 0 (out @ [of_nat (leftchar * 4 + this_ch div 16)])
              else if quad_pos = 2 then
                a2b_base64 cs 3 (this_ch mod 4) 0 (out @ [of_nat (leftchar * 16 + this_ch div 4)])
              else
                a2b_base64 cs 0 0 0 (out @ [of_nat (leftchar * 64 + this_ch)]))))"

text \<open>
  \<^verbatim>\<open>b64decode\<close> first turns a \<^verbatim>\<open>str\<close> argument into ASCII bytes, which raises
  \<^verbatim>\<open>ValueError\<close> on any character above 127.
\<close>

definition b64decode :: "string \<Rightarrow> error + byte list" where
  "b64decode s =
     (if \<exists>c \<in> set s. (of_char c :: nat) \<ge> 128 then Inl ValueError
      else a2b_base64 s 0 0 0 [])"

subsection \<open>\<^verbatim>\<open>bytes.decode('utf-8')\<close>\<close>

text \<open>
  The strict UTF-8 decoder: it rejects stray continuation bytes, truncated sequences,
  overlong forms, surrogates and code points above \<open>0x10FFFF\<close>.
\<close>

definition is_continuation :: "byte \<Rightarrow> bool" where
  "is_continuation b \<longleftrightarrow> 128 \<le> unat b \<and> unat b < 192"

fun utf8_decode :: "byte list \<Rightarrow> nat list option" where
  "utf8_decode [] = Some []"
| "utf8_decode (b0 # bs) =
     (if unat b0 < 128 then map_option (Cons (unat b0)) (utf8_decode bs)
      else if unat b0 < 194 then None
      else if unat b0 < 224 then
        (case bs of
           b1 # rest \<Rightarrow>
             if is_continuation b1
             then map_option (Cons ((unat b0 - 192) * 64 + (unat b1 - 128))) (utf8_decode rest)
             else None
         | _ \<Rightarrow> None)
      else if unat b0 < 240 then
        (case bs of
           b1 # b2 # rest \<Rightarrow>
             (let cp = (unat b0 - 224) * 4096 + (unat b1 - 128) * 64 + (unat b2 - 128) in
              if is_continuation b1 \<and> is_continuation b2 \<and> 2048 \<le> cp
                 \<and> \<not> (55296 \<le> cp \<and> cp \<le> 57343)
              then map_option (Cons cp) (utf8_decode rest)
              else None)
         | _ \<Rightarrow> None)
      else if unat b0 < 245 then
        (case bs of
           b1 # b2 # b3 # rest \<Rightarrow>
             (let cp = (unat b0 - 240) * 262144 + (unat b1 - 128) * 4096
                        + (unat b2 - 128) * 64 + (unat b3 - 128) in
              if is_continuation b1 \<and> is_continuation b2 \<and> is_continuation b3
                 \<and> 65536 \<le> cp \<and> cp \<le> 1114111
              then map_option (Cons cp) (utf8_decode rest)
              else None)
         | _ \<Rightarrow> None)
      else None)"

subsection \<open>\<^verbatim>\<open>decode_content\<close>\<close>

text \<open>
  The decoded payload is a \<^verbatim>\<open>str\<close> or a \<^verbatim>\<open>bytes\<close> object. The body of
  \<^verbatim>\<open>decode_content\<close> is a \<^verbatim>\<open>try\<close> whose handler catches every exception of
  the first attempt and then calls \<^verbatim>\<open>b64decode\<close> a second time, outside any handler.
\<close>

datatype payload = Text "nat list" | Binary "byte list"

definition decode_content :: "string \<Rightarrow> error + payload \<times> int" where
  "decode_content content =
     (case (case b64decode content of
              Inl e \<Rightarrow> Inl e
            | Inr bs \<Rightarrow>
                (case utf8_decode bs of
                   None \<Rightarrow> Inl UnicodeDecodeError
                 | Some t \<Rightarrow> Inr (Text t, 1))) of
        Inr r \<Rightarrow> Inr r
      | Inl _ \<Rightarrow>
          (case b64decode content of
             Inl e \<Rightarrow> Inl e
           | Inr bs \<Rightarrow> Inr (Binary bs, 0)))"

subsection \<open>Encoders, to state the round trips\<close>

text \<open>
  The claims about the decoder speak of the base64 encoding of bytes and of re-encoding
  text as UTF-8. These are \<^verbatim>\<open>base64.b64encode\<close> and \<^verbatim>\<open>str.encode('utf-8')\<close>;
  the repository does not call them.
\<close>

fun b64encode :: "byte list \<Rightarrow> string" where
  "b64encode [] = []"
| "b64encode [a] =
     [table_b2a_base64 (unat a div 4), table_b2a_base64 ((unat a mod 4) * 16), CHR ''='', CHR ''='']"
| "b64encode [a, b] =
     [table_b2a_base64 (unat a div 4), table_b2a_base64 ((unat a mod 4) * 16 + unat b div 16),
      table_b2a_base64 ((unat b mod 16) * 4), CHR ''='']"
| "b64encode (a # b # c # rest) =
     [table_b2a_base64 (unat a div 4), table_b2a_base64 ((unat a mod 4) * 16 + unat b div 16),
      table_b2a_base64 ((unat b mod 16) * 4 + unat c div 64), table_b2a_base64 (unat c mod 64)]
     @ b64encode rest"


definition encode_code_point :: "nat \<Rightarrow> byte list option" where
  "encode_code_point cp =
     (if cp < 128 then Some [of_nat cp]
      else if cp < 2048 then Some [of_nat (192 + cp div 64), of_nat (128 + cp mod 64)]
      else if cp < 65536 then
        (if 55296 \<le> cp \<and> cp \<le> 57343 then None
         else Some [of_nat (224 + cp div 4096), of_nat (128 + cp div 64 mod 64),
                    of_nat (128 + cp mod 64)])
      else if cp < 1114112 then
        Some [of_nat (240 + cp div 262144), of_nat (128 + cp div 4096 mod 64),
              of_nat (128 + cp div 64 mod 64), of_nat (128 + cp mod 64)]
      else None)"

fun utf8_encode :: "nat list \<Rightarrow> byte list option" where
  "utf8_encode [] = Some []"
| "utf8_encode (cp # cps) =
     (case encode_code_point cp of
        None \<Rightarrow> None
      | Some bs \<Rightarrow> map_option ((@) bs) (utf8_encode cps))"



section \<open>Local file system\<close>

text \<open>
  A local path is the list of its segments, relative to the working directory;
  \<^verbatim>\<open>Path(s)\<close> splits at the separator and drops empty and \<^verbatim>\<open>.\<close> segments, as
  \<^verbatim>\<open>pathlib\<close> does, and \<^verbatim>\<open>Path(a) / b\<close> appends the segments of \<open>b\<close>. Absolute
  paths and the meaning of \<^verbatim>\<open>..\<close> are outside this model: the contents API returns
  paths relative to the repository root.
\<close>

type_synonym path = "string list"

fun split_on :: "char \<Rightarrow> string \<Rightarrow> string list" where
  "split_on sep [] = [[]]"
| "split_on sep (c # cs) =
     (if c = sep then [] # split_on sep cs
      else (case split_on sep cs of w # ws \<Rightarrow> (c # w) # ws | [] \<Rightarrow> [[c]]))"

definition Path :: "string \<Rightarrow> path" where
  "Path s = filter (\<lambda>seg. seg \<noteq> [] \<and> seg \<noteq> ''.'') (split_on CHR ''/'' s)"

text \<open>
  The file system maps a path to a directory or to a file with its bytes. The working
  directory itself, the empty path, always is a directory.
\<close>

datatype node = Dir | File "byte list"

type_synonym filesystem = "path \<Rightarrow> node option"

definition node_at :: "filesystem \<Rightarrow> path \<Rightarrow> node option" where
  "node_at fs p = (if p = [] then Some Dir else fs p)"

definition exists_path :: "filesystem \<Rightarrow> path \<Rightarrow> bool" where
  "exists_path fs p \<longleftrightarrow> node_at fs p \<noteq> None"

text \<open>\<^verbatim>\<open>os.mkdir\<close>: the parent must be a directory and the path must be new.\<close>

definition os_mkdir :: "path \<Rightarrow> filesystem \<Rightarrow> error + filesystem" where
  "os_mkdir p fs =
     (if p = [] then Inl FileExistsError
      else (case node_at fs (butlast p) of
              None \<Rightarrow> Inl FileNotFoundError
            | Some (File _) \<Rightarrow> Inl NotADirectoryError
            | Some Dir \<Rightarrow>
                (case fs p of
                   None \<Rightarrow> Inr (fs(p \<mapsto> Dir))
                 | Some _ \<Rightarrow> Inl FileExistsError)))"

text \<open>
  \<^verbatim>\<open>Path.mkdir(parents=True, exist_ok=True)\<close>: on \<^verbatim>\<open>FileNotFoundError\<close> it creates the
  parent the same way and then the directory itself; any other \<^verbatim>\<open>OSError\<close> is
  swallowed when the path is a directory already. A failure keeps the directories made
  so far, so the error comes with the file system it leaves.
\<close>

fun mkdir :: "path \<Rightarrow> filesystem \<Rightarrow> error \<times> filesystem + filesystem" where
  "mkdir p fs =
     (case os_mkdir p fs of
        Inr fs' \<Rightarrow> Inr fs'
      | Inl e \<Rightarrow>
          if e = FileNotFoundError then
            (if p = [] then Inl (e, fs)
             else (case mkdir (butlast p) fs of
                     Inl r \<Rightarrow> Inl r
                   | Inr fs1 \<Rightarrow>
                       (case os_mkdir p fs1 of
                          Inr fs2 \<Rightarrow> Inr fs2
                        | Inl e2 \<Rightarrow>
                            if e2 \<noteq> FileNotFoundError \<and> node_at fs1 p = Some Dir
                            then Inr fs1 else Inl (e2, fs1))))
          else if node_at fs p = Some Dir then Inr fs
          else Inl (e, fs))"

declare mkdir.simps [simp del]

text \<open>
  \<^verbatim>\<open>Path.open\<close> in mode \<^verbatim>\<open>'w'\<close> or \<^verbatim>\<open>'wb'\<close> creates the file or truncates it.
\<close>

definition open_w :: "path \<Rightarrow> filesystem \<Rightarrow> error + filesystem" where
  "open_w p fs =
     (if node_at fs p = Some Dir then Inl IsADirectoryError
      else (case node_at fs (butlast p) of
              None \<Rightarrow> Inl FileNotFoundError
            | Some (File _) \<Rightarrow> Inl NotADirectoryError
            | Some Dir \<Rightarrow> Inr (fs(p \<mapsto> File []))))"

section \<open>The client and the world it acts on\<close>

text \<open>
  What the client does to its surroundings is recorded as a sequence of events: the
  requests sent to the remote API, the notices printed by \<^verbatim>\<open>self.info\<close>, and the
  directory creations and file writes on the local file system. A file write carries
  the payload handed to \<^verbatim>\<open>f.write\<close>: text stands for mode \<^verbatim>\<open>'w'\<close> with UTF-8
  encoding, bytes for mode \<^verbatim>\<open>'wb'\<close>.
\<close>

datatype request =
    GetRepo string
  | GetContents string string "string option"
  | GetUser string
  | GetGists string
  | GetRepos string
  | GetFollowers string
  | GetFollowing string

datatype event =
    Request request
  | Notice string
  | MkDir path
  | WriteFile path payload

record world =
  fs :: filesystem
  events :: "event list"

text \<open>
  An entry of a directory listing has a type and a path. \<^verbatim>\<open>Repository.get_contents\<close>
  answers with a list of entries for a directory and with a single file object, whose
  \<^verbatim>\<open>content\<close> attribute is the base64 text or \<^verbatim>\<open>None\<close>, for a file.
\<close>

record content_file =
  ctype :: string
  cpath :: string

datatype response = Listing "content_file list" | SingleFile "string option"

text \<open>
  The client object: its \<^verbatim>\<open>warnings\<close> switch, the depth of nested
  \<^verbatim>\<open>process_content\<close> calls that the interpreter allows, and the remote API as the
  answers it gives. The optional \<^verbatim>\<open>ref\<close> of a request is \<open>None\<close> for \<^verbatim>\<open>NotSet\<close>,
  which the remote resolves to the default branch.
\<close>

record github =
  warnings :: bool
  recursion_limit :: nat
  remote_repo :: "string \<Rightarrow> error option"
  remote_contents :: "string \<Rightarrow> string \<Rightarrow> string option \<Rightarrow> error + response"

definition info :: "github \<Rightarrow> string \<Rightarrow> world \<Rightarrow> world" where
  "info gh msg w = (if warnings gh then w\<lparr>events := events w @ [Notice msg]\<rparr> else w)"

definition get_repo :: "github \<Rightarrow> string \<Rightarrow> world \<Rightarrow> error \<times> world + world" where
  "get_repo gh repo_full_name w =
     (let w1 = w\<lparr>events := events w @ [Request (GetRepo repo_full_name)]\<rparr> in
      case remote_repo gh repo_full_name of
        Some e \<Rightarrow> Inl (e, w1)
      | None \<Rightarrow> Inr w1)"

text \<open>\<^verbatim>\<open>repo.get_contents(path, ref=ref)\<close> on the repository object of \<open>full_name\<close>.\<close>

definition get_contents ::
  "github \<Rightarrow> string \<Rightarrow> string \<Rightarrow> string option \<Rightarrow> world \<Rightarrow> error \<times> world + response \<times> world" where
  "get_contents gh full_name path_str ref w =
     (let w1 = w\<lparr>events := events w @ [Request (GetContents full_name path_str ref)]\<rparr> in
      case remote_contents gh full_name path_str ref of
        Inl e \<Rightarrow> Inl (e, w1)
      | Inr r \<Rightarrow> Inr (r, w1))"

definition get_repo_content ::
  "github \<Rightarrow> string \<Rightarrow> string \<Rightarrow> string option \<Rightarrow> world \<Rightarrow> error \<times> world + response \<times> world" where
  "get_repo_content gh repo_name path_str ref w =
     (case get_repo gh repo_name w of
        Inl r \<Rightarrow> Inl r
      | Inr w1 \<Rightarrow> get_contents gh repo_name path_str ref w1)"

text \<open>
  \<^verbatim>\<open>get_file_content\<close> reads the \<^verbatim>\<open>content\<close> attribute of the answer, which a list
  does not have, and decodes \<^verbatim>\<open>content or b''\<close>.
\<close>

definition get_file_content ::
  "github \<Rightarrow> string \<Rightarrow> string \<Rightarrow> string option \<Rightarrow> world
     \<Rightarrow> error \<times> world + (payload \<times> int) \<times> world" where
  "get_file_content gh repo_name file_path ref w =
     (case get_repo gh repo_name w of
        Inl r \<Rightarrow> Inl r
      | Inr w1 \<Rightarrow>
          (case get_contents gh repo_name file_path ref w1 of
             Inl r \<Rightarrow> Inl r
           | Inr (file_content, w2) \<Rightarrow>
               (case file_content of
                  Listing _ \<Rightarrow> Inl (AttributeError, w2)
                | SingleFile content \<Rightarrow>
                    (case decode_content (case content of None \<Rightarrow> [] | Some s \<Rightarrow> s) of
                       Inl e \<Rightarrow> Inl (e, w2)
                     | Inr r \<Rightarrow> Inr (r, w2)))))"

text \<open>
  The \<^verbatim>\<open>with file_path.open(mode, encoding=...) as f: f.write(file_content)\<close> block:
  the mode is text when the flag is truthy, binary otherwise. Writing bytes to a text
  file or text to a binary file is a \<^verbatim>\<open>TypeError\<close>, and it leaves the file that
  opening has created or emptied. Text is stored as its UTF-8 encoding; the line
  separator of the platform is taken to be the newline character, so that text mode
  translates nothing.
\<close>

definition write_file :: "path \<Rightarrow> int \<Rightarrow> payload \<Rightarrow> world \<Rightarrow> error \<times> world + world" where
  "write_file file_path flag file_content w =
     (case open_w file_path (fs w) of
        Inl e \<Rightarrow> Inl (e, w)
      | Inr fs0 \<Rightarrow>
          (if flag \<noteq> 0 then
             (case file_content of
                Text t \<Rightarrow>
                  (case utf8_encode t of
                     None \<Rightarrow> Inl (UnicodeEncodeError, w\<lparr>fs := fs0\<rparr>)
                   | Some bs \<Rightarrow>
                       Inr (w\<lparr>fs := fs0(file_path \<mapsto> File bs),
                              events := events w @ [WriteFile file_path (Text t)]\<rparr>))
              | Binary _ \<Rightarrow> Inl (TypeError, w\<lparr>fs := fs0\<rparr>))
           else
             (case file_content of
                Binary bs \<Rightarrow>
                  Inr (w\<lparr>fs := fs0(file_path \<mapsto> File bs),
                         events := events w @ [WriteFile file_path (Binary bs)]\<rparr>)
              | Text _ \<Rightarrow> Inl (TypeError, w\<lparr>fs := fs0\<rparr>))))"

definition make_dir :: "path \<Rightarrow> world \<Rightarrow> error \<times> world + world" where
  "make_dir dir_path w =
     (let w1 = w\<lparr>events := events w @ [MkDir dir_path]\<rparr> in
      case mkdir dir_path (fs w1) of
        Inl (e, fs') \<Rightarrow> Inl (e, w1\<lparr>fs := fs'\<rparr>)
      | Inr fs' \<Rightarrow> Inr (w1\<lparr>fs := fs'\<rparr>))"

section \<open>The recursive clone\<close>

text \<open>
  \<^verbatim>\<open>process_content\<close> is the closure inside \<^verbatim>\<open>clone_repo\<close>; it captures
  \<^verbatim>\<open>repo_origin\<close> and \<^verbatim>\<open>repo_name\<close>, and it neither captures nor passes on
  \<^verbatim>\<open>ref\<close>. The \<^verbatim>\<open>for\<close> loop over a listing is \<open>process_all\<close>. The recursion follows
  the answers of the remote, so it carries the number of nested calls still allowed;
  with none left the interpreter raises \<^verbatim>\<open>RecursionError\<close>. An entry that is neither
  \<^verbatim>\<open>"dir"\<close> nor \<^verbatim>\<open>"file"\<close> is passed over. Iterating over a single file object
  instead of a list is a \<^verbatim>\<open>TypeError\<close>.
\<close>

fun process_content ::
    "github \<Rightarrow> string \<Rightarrow> string \<Rightarrow> nat \<Rightarrow> content_file \<Rightarrow> world \<Rightarrow> error \<times> world + world"
  and process_all ::
    "github \<Rightarrow> string \<Rightarrow> string \<Rightarrow> nat \<Rightarrow> content_file list \<Rightarrow> world \<Rightarrow> error \<times> world + world"
where
  "process_content gh repo_origin repo_name 0 content w = Inl (RecursionError, w)"
| "process_content gh repo_origin repo_name (Suc depth) content w =
     (if ctype content = ''dir'' then
        (case make_dir (Path repo_name @ Path (cpath content))
                (info gh (''Processing directory: '' @ cpath content) w) of
           Inl r \<Rightarrow> Inl r
         | Inr w1 \<Rightarrow>
             (case get_repo_content gh repo_origin (cpath content) None w1 of
                Inl r \<Rightarrow> Inl r
              | Inr (sub_contents, w2) \<Rightarrow>
                  (case sub_contents of
                     Listing cs \<Rightarrow> process_all gh repo_origin repo_name depth cs w2
                   | SingleFile _ \<Rightarrow> Inl (TypeError, w2))))
      else if ctype content = ''file'' then
        (case get_file_content gh repo_origin (cpath content) None
                (info gh (''Processing file: '' @ cpath content) w) of
           Inl r \<Rightarrow> Inl r
         | Inr ((file_content, flag), w1) \<Rightarrow>
             write_file (Path repo_name @ Path (cpath content)) flag file_content w1)
      else Inr w)"
| "process_all gh repo_origin repo_name depth [] w = Inr w"
| "process_all gh repo_origin repo_name depth (content # contents) w =
     (case process_content gh repo_origin repo_name depth content w of
        Inl r \<Rightarrow> Inl r
      | Inr w1 \<Rightarrow> process_all gh repo_origin repo_name depth contents w1)"

text \<open>
  The first lines of \<^verbatim>\<open>clone_repo\<close>: without \<^verbatim>\<open>repo_origin\<close> the full name is the
  f-string of the two other arguments (\<^verbatim>\<open>None\<close> prints as \<^verbatim>\<open>None\<close>); with it, the
  unpacking of \<^verbatim>\<open>repo_origin.split('/')\<close> needs exactly two parts.
\<close>

definition format_opt :: "string option \<Rightarrow> string" where
  "format_opt x = (case x of None \<Rightarrow> ''None'' | Some s \<Rightarrow> s)"

definition resolve_origin ::
  "string option \<Rightarrow> string option \<Rightarrow> string option \<Rightarrow> error + string \<times> string option" where
  "resolve_origin username repo_name repo_origin =
     (case repo_origin of
        None \<Rightarrow> Inr (format_opt username @ ''/'' @ format_opt repo_name, repo_name)
      | Some origin \<Rightarrow>
          if origin = [] then Inr (format_opt username @ ''/'' @ format_opt repo_name, repo_name)
          else (case split_on CHR ''/'' origin of
                  [u, n] \<Rightarrow> Inr (origin, Some n)
                | _ \<Rightarrow> Inl ValueError))"

text \<open>
  \<^verbatim>\<open>clone_repo\<close>. The repository lookup and the root listing come first, then the
  check of the destination. \<^verbatim>\<open>Path(None)\<close> is a \<^verbatim>\<open>TypeError\<close>.
\<close>

definition clone_repo ::
  "github \<Rightarrow> string option \<Rightarrow> string option \<Rightarrow> string option \<Rightarrow> string option \<Rightarrow> bool
     \<Rightarrow> world \<Rightarrow> error \<times> world + world" where
  "clone_repo gh username repo_name repo_origin ref overwrite w =
     (case resolve_origin username repo_name repo_origin of
        Inl e \<Rightarrow> Inl (e, w)
      | Inr (origin, name_opt) \<Rightarrow>
          (case get_repo gh origin w of
             Inl r \<Rightarrow> Inl r
           | Inr w1 \<Rightarrow>
               (case get_contents gh origin [] ref w1 of
                  Inl r \<Rightarrow> Inl r
                | Inr (contents, w2) \<Rightarrow>
                    (case name_opt of
                       None \<Rightarrow> Inl (TypeError, w2)
                     | Some name \<Rightarrow>
                         if exists_path (fs w2) (Path name) \<and> \<not> overwrite then
                           Inr (info gh (''Repository '' @ name
                                  @ '' already exists. Skipping clone. (Set overwrite=True to force clone)'') w2)
                         else
                           (case make_dir (Path name)
                                   (if exists_path (fs w2) (Path name)
                                    then info gh (''Repository '' @ name
                                           @ '' already exists. Overwriting objects.'') w2
                                    else w2) of
                              Inl r \<Rightarrow> Inl r
                            | Inr w3 \<Rightarrow>
                                (case contents of
                                   Listing cs \<Rightarrow>
                                     process_all gh origin name (recursion_limit gh) cs
                                       (info gh (''Processing repository: '' @ name) w3)
                                 | SingleFile _ \<Rightarrow>
                                     Inl (TypeError,
                                          info gh (''Processing repository: '' @ name) w3)))))))"

section \<open>Notions used to state the properties of the clone\<close>

text \<open>
  The world that a call leaves behind, whether it returns or raises, and the events
  that a call has added.
\<close>

definition final :: "error \<times> world + world \<Rightarrow> world" where
  "final r = (case r of Inl (e, w) \<Rightarrow> w | Inr w \<Rightarrow> w)"

definition new_events :: "world \<Rightarrow> world \<Rightarrow> event list" where
  "new_events w w' = drop (length (events w)) (events w')"

fun is_fs_event :: "event \<Rightarrow> bool" where
  "is_fs_event (MkDir p) = True"
| "is_fs_event (WriteFile p x) = True"
| "is_fs_event (Request r) = False"
| "is_fs_event (Notice m) = False"

fun is_request :: "event \<Rightarrow> bool" where
  "is_request (Request r) = True"
| "is_request (MkDir p) = False"
| "is_request (WriteFile p x) = False"
| "is_request (Notice m) = False"

text \<open>No content request in the list names a ref.\<close>

definition ref_free :: "event list \<Rightarrow> bool" where
  "ref_free evs \<longleftrightarrow> (\<forall>full p r. Request (GetContents full p r) \<in> set evs \<longrightarrow> r = None)"

text \<open>
  Nothing is deleted: a path that holds a directory still holds a directory, and a path
  that holds a file still holds a file.
\<close>

definition preserved :: "filesystem \<Rightarrow> filesystem \<Rightarrow> bool" where
  "preserved fs1 fs2 \<longleftrightarrow>
     (\<forall>p. (fs1 p = Some Dir \<longrightarrow> fs2 p = Some Dir) \<and>
          (\<forall>bs. fs1 p = Some (File bs) \<longrightarrow> (\<exists>bs'. fs2 p = Some (File bs'))))"


subsection \<open>Remote trees\<close>

text \<open>
  A remote tree, as the repository holds it at one ref: files with their bytes,
  directories with their children, and entries of any other type (symbolic links,
  submodules) with the type the listing reports for them.
\<close>

datatype rnode =
    RFile string "byte list"
  | RDir string "rnode list"
  | ROther string string

fun rname :: "rnode \<Rightarrow> string" where
  "rname (RFile nm bs) = nm"
| "rname (RDir nm sub) = nm"
| "rname (ROther kind nm) = nm"








text \<open>
  The local file system does not contradict the node: no directory where the tree has
  a file, no file where the tree has a directory.
\<close>

fun compat :: "filesystem \<Rightarrow> path \<Rightarrow> rnode \<Rightarrow> bool" where
  "compat fsys base (RFile nm bs) = (fsys (base @ [nm]) \<noteq> Some Dir)"
| "compat fsys base (RDir nm sub) =
     ((case fsys (base @ [nm]) of Some (File _) \<Rightarrow> False | _ \<Rightarrow> True) \<and>
      (\<forall>n \<in> set sub. compat fsys (base @ [nm]) n))"
| "compat fsys base (ROther kind nm) = True"





text \<open>
  The flag that comes with a payload agrees with it: text that encodes as UTF-8 with a
  truthy flag, bytes with the flag 0.
\<close>

fun consistent :: "payload \<Rightarrow> int \<Rightarrow> bool" where
  "consistent (Text t) flag = (flag \<noteq> 0 \<and> utf8_encode t \<noteq> None)"
| "consistent (Binary bs) flag = (flag = 0)"

text \<open>
  The bytes that a written payload puts on disk, and the payload of the last write to
  a path in a sequence of events, if the path is written at all.
\<close>

definition payload_bytes :: "payload \<Rightarrow> byte list" where
  "payload_bytes pl =
     (case pl of
        Text t \<Rightarrow> (case utf8_encode t of Some bs \<Rightarrow> bs | None \<Rightarrow> [])
      | Binary bs \<Rightarrow> bs)"

fun last_write :: "path \<Rightarrow> event list \<Rightarrow> payload option" where
  "last_write p [] = None"
| "last_write p (ev # evs) =
     (case last_write p evs of
        Some pl \<Rightarrow> Some pl
      | None \<Rightarrow> (case ev of WriteFile q pl \<Rightarrow> if q = p then Some pl else None | _ \<Rightarrow> None))"

text \<open>
  What every step of the walk does to the world: it appends events, none of them a
  content request with a ref; it leaves every existing path in place, and unchanged
  unless it is a file that the step writes; and every file it writes is on disk
  afterwards, with the bytes of the last write to it.
\<close>

definition advance :: "world \<Rightarrow> world \<Rightarrow> bool" where
  "advance w w' \<longleftrightarrow>
     (\<exists>new. events w' = events w @ new \<and> ref_free new \<and>
        (\<forall>p n. fs w p = Some n \<longrightarrow>
           fs w' p = Some n \<or>
           (\<exists>x y pl. n = File x \<and> fs w' p = Some (File y) \<and> WriteFile p pl \<in> set new)) \<and>
        (\<forall>p pl. WriteFile p pl \<in> set new \<longrightarrow> (\<exists>bs. fs w' p = Some (File bs))) \<and>
        (\<forall>p pl. last_write p new = Some pl \<longrightarrow> fs w' p = Some (File (payload_bytes pl))))"

abbreviation fs_events :: "world \<Rightarrow> event list" where
  "fs_events w \<equiv> filter is_fs_event (events w)"

text \<open>
  The error, if any, with which the remote answers a request, and the error, if any,
  with which a call ends.
\<close>

fun answer :: "github \<Rightarrow> request \<Rightarrow> error option" where
  "answer gh (GetRepo full) = remote_repo gh full"
| "answer gh (GetContents full p r) =
     (case remote_contents gh full p r of Inl e \<Rightarrow> Some e | Inr x \<Rightarrow> None)"
| "answer gh (GetUser name) = None"
| "answer gh (GetGists name) = None"
| "answer gh (GetRepos name) = None"
| "answer gh (GetFollowers name) = None"
| "answer gh (GetFollowing name) = None"

definition raised :: "error \<times> world + world \<Rightarrow> error option" where
  "raised r = (case r of Inl (e, w) \<Rightarrow> Some e | Inr w \<Rightarrow> None)"

definition clean :: "github \<Rightarrow> event list \<Rightarrow> bool" where
  "clean gh evs \<longleftrightarrow> (\<forall>q. Request q \<in> set evs \<longrightarrow> answer gh q = None)"

text \<open>
  A step from \<open>w\<close> to \<open>w'\<close> that ends with \<open>err\<close> stops at the first request that
  fails: either every request it has made was answered, or the request that was
  refused is its last event and the refusal is the error it ends with.
\<close>

definition stops :: "github \<Rightarrow> world \<Rightarrow> world \<Rightarrow> error option \<Rightarrow> bool" where
  "stops gh w w' err \<longleftrightarrow>
     (\<exists>new. events w' = events w @ new \<and>
        (clean gh new \<or>
         (\<exists>q e pre. new = pre @ [Request q] \<and> clean gh pre \<and> answer gh q = Some e \<and>
                    err = Some e)))"

text \<open>
  A call keeps the local files: every path that existed still exists, unchanged unless
  it is a file that the call has written, and every file that the call has written is
  on disk when the call ends, with the bytes of the last write to it.
\<close>

definition keeps :: "world \<Rightarrow> world \<Rightarrow> bool" where
  "keeps w w' \<longleftrightarrow>
     (\<forall>p n. fs w p = Some n \<longrightarrow>
        fs w' p = Some n \<or>
        (\<exists>x y pl. n = File x \<and> fs w' p = Some (File y) \<and>
                   WriteFile p pl \<in> set (new_events w w'))) \<and>
     (\<forall>p pl. WriteFile p pl \<in> set (new_events w w') \<longrightarrow> (\<exists>bs. fs w' p = Some (File bs))) \<and>
     (\<forall>p pl. last_write p (new_events w w') = Some pl \<longrightarrow>
        fs w' p = Some (File (payload_bytes pl)))"

text \<open>
  A step from \<open>w\<close> to \<open>w'\<close> that ends with \<open>err\<close> stops at the first directory that
  cannot be created: no directory of before is lost, and every directory creation among
  the events of the step has left a directory at its path, unless it is the last event
  of the step, \<^verbatim>\<open>mkdir\<close> has failed there, leaving the file system of \<open>w'\<close>, and its
  error is the error the step ends with.
\<close>

definition makes :: "world \<Rightarrow> world \<Rightarrow> error option \<Rightarrow> bool" where
  "makes w w' err \<longleftrightarrow>
     (\<exists>new. events w' = events w @ new \<and>
        (\<forall>p. fs w p = Some Dir \<longrightarrow> fs w' p = Some Dir) \<and>
        (\<forall>pre p post. new = pre @ MkDir p # post \<longrightarrow>
           node_at (fs w') p = Some Dir \<or>
           (post = [] \<and> (\<exists>e f. mkdir p f = Inl (e, fs w') \<and> err = Some e))))"

section \<open>A small remote repository\<close>


definition demo_contents :: "string \<Rightarrow> string \<Rightarrow> string option \<Rightarrow> error + response" where
  "demo_contents full p r =
     (if full \<noteq> ''u/r'' then Inl UnknownObjectException
      else if p = [] then
        Inr (Listing [\<lparr>ctype = ''file'', cpath = ''a.txt''\<rparr>, \<lparr>ctype = ''dir'', cpath = ''b''\<rparr>])
      else if p = ''a.txt'' then Inr (SingleFile (Some ''aGk=\<newline>''))
      else if p = ''b'' then Inr (Listing [\<lparr>ctype = ''file'', cpath = ''b/c.bin''\<rparr>])
      else if p = ''b/c.bin'' then Inr (SingleFile (Some ''//4=\<newline>''))
      else Inl UnknownObjectException)"

definition demo :: github where
  "demo = \<lparr>warnings = True, recursion_limit = Suc (Suc (Suc 0)),
            remote_repo = (\<lambda>full. if full = ''u/r'' then None else Some UnknownObjectException),
            remote_contents = demo_contents\<rparr>"

text \<open>An empty working directory, and one that holds the directory \<^verbatim>\<open>r\<close> already.\<close>

definition empty_world :: world where
  "empty_world = \<lparr>fs = Map.empty, events = []\<rparr>"

definition populated_world :: world where
  "populated_world = \<lparr>fs = [[''r''] \<mapsto> Dir, [''r'', ''old.txt''] \<mapsto> File [111]], events = []\<rparr>"

text \<open>
  The same repository behind a connection that breaks when \<^verbatim>\<open>b/c.bin\<close> is fetched.
\<close>

definition flaky_contents :: "string \<Rightarrow> string \<Rightarrow> string option \<Rightarrow> error + response" where
  "flaky_contents full p r =
     (if p = ''b/c.bin'' then Inl ConnectionError else demo_contents full p r)"

definition flaky :: github where
  "flaky = demo\<lparr>remote_contents := flaky_contents\<rparr>"




definition blocked_world :: world where
  "blocked_world = \<lparr>fs = [[''r''] \<mapsto> Dir, [''r'', ''b''] \<mapsto> File [0]], events = []\<rparr>"

section \<open>User aggregation\<close>

text \<open>
  \<^verbatim>\<open>get_user_info\<close> reads the user, the gists and the repositories of the user from the
  remote, three requests that can each fail. \<^verbatim>\<open>repo.get_issues(state="all")\<close> and
  \<^verbatim>\<open>repo.get_pulls(state="all")\<close> return paginated lists that fetch nothing until they
  are iterated, so what the two dictionaries store is the handle, named here by the
  repository it belongs to. The validation that the \<^verbatim>\<open>User\<close> model of
  \<^verbatim>\<open>models/users.py\<close> applies to its fields is not part of this model.
\<close>

record repository =
  repo_name :: string
  repo_full_name :: string

record named_user =
  nu_id :: int
  nu_login :: string

datatype paginated = IssuesAll string | PullsAll string

record 'g users_api =
  remote_user :: "string \<Rightarrow> error + named_user"
  remote_gists :: "string \<Rightarrow> error + 'g list"
  remote_repos :: "string \<Rightarrow> error + repository list"

text \<open>The \<^verbatim>\<open>User\<close> model; its field \<^verbatim>\<open>id\<close> is \<open>user_id\<close> here.\<close>

record 'g User =
  user_id :: "int option"
  user :: "named_user option"
  gists :: "('g, unit) iterable"
  repos :: "(repository, unit) iterable"
  followings :: "named_user list"
  followers :: "named_user list"
  user_repo_issues :: "string \<rightharpoonup> paginated"
  user_repo_pull_requests :: "string \<rightharpoonup> paginated"

text \<open>
  The \<^verbatim>\<open>for repo in repos\<close> loop, which stores the two handles of each repository under
  \<^verbatim>\<open>repo.name\<close>.
\<close>

fun index_repos ::
  "repository list \<Rightarrow> (string \<rightharpoonup> paginated) \<times> (string \<rightharpoonup> paginated)
     \<Rightarrow> (string \<rightharpoonup> paginated) \<times> (string \<rightharpoonup> paginated)" where
  "index_repos [] (issues, pulls) = (issues, pulls)"
| "index_repos (repo # rest) (issues, pulls) =
     index_repos rest
       (issues(repo_name repo \<mapsto> IssuesAll (repo_full_name repo)),
        pulls(repo_name repo \<mapsto> PullsAll (repo_full_name repo)))"

definition get_user_info ::
  "'g users_api \<Rightarrow> string \<Rightarrow> int option \<Rightarrow> world \<Rightarrow> error \<times> world + 'g User \<times> world" where
  "get_user_info api username limit w =
     (let w1 = w\<lparr>events := events w @ [Request (GetUser username)]\<rparr> in
      case remote_user api username of
        Inl e \<Rightarrow> Inl (e, w1)
      | Inr usr \<Rightarrow>
          (let w2 = w1\<lparr>events := events w1 @ [Request (GetGists username)]\<rparr> in
           case remote_gists api username of
             Inl e \<Rightarrow> Inl (e, w2)
           | Inr all_gists \<Rightarrow>
               (let w3 = w2\<lparr>events := events w2 @ [Request (GetRepos username)]\<rparr> in
                case remote_repos api username of
                  Inl e \<Rightarrow> Inl (e, w3)
                | Inr all_repos \<Rightarrow>
                    Inr (\<lparr>user_id = Some (nu_id usr),
                          user = Some usr,
                          gists = limiter (PyList all_gists) limit,
                          repos = limiter (PyList all_repos) limit,
                          followings = [],
                          followers = [],
                          user_repo_issues = fst (index_repos all_repos (Map.empty, Map.empty)),
                          user_repo_pull_requests
                            = snd (index_repos all_repos (Map.empty, Map.empty))\<rparr>,
                         w3))))"

text \<open>The value that a call returns, if it returns, and the world it leaves.\<close>

definition returned :: "error \<times> world + 'a \<times> world \<Rightarrow> 'a option" where
  "returned r = (case r of Inl x \<Rightarrow> None | Inr (v, w) \<Rightarrow> Some v)"

text \<open>A user with three gists and three repositories.\<close>

definition alice_repos :: "repository list" where
  "alice_repos =
     [\<lparr>repo_name = ''r1'', repo_full_name = ''alice/r1''\<rparr>,
      \<lparr>repo_name = ''r2'', repo_full_name = ''alice/r2''\<rparr>,
      \<lparr>repo_name = ''r3'', repo_full_name = ''alice/r3''\<rparr>]"

definition alice_api :: "nat users_api" where
  "alice_api =
     \<lparr>remote_user = (\<lambda>nm. if nm = ''alice'' then Inr \<lparr>nu_id = 7, nu_login = ''alice''\<rparr>
                          else Inl UnknownObjectException),
      remote_gists = (\<lambda>nm. Inr [1, 2, 3]),
      remote_repos = (\<lambda>nm. Inr alice_repos)\<rparr>"

section \<open>Properties of the limiter\<close>

lemma slice_upto_nonneg: "0 \<le> n \<Longrightarrow> slice_upto xs n = take (nat n) xs"
  by (simp add: slice_upto_def)

lemma slice_upto_neg: "n < 0 \<Longrightarrow> slice_upto xs n = take (length xs - nat (- n)) xs"
proof -
  assume "n < 0"
  then have "nat (int (length xs) + n) = length xs - nat (- n)"
    by arith
  with \<open>n < 0\<close> show ?thesis
    by (simp add: slice_upto_def)
qed

text \<open>
  C6, as amended: for a concrete list and a limit \<open>n \<ge> 0\<close>, the limiter returns the
  first \<open>min n L\<close> elements in their original order (a prefix of the list), and with no
  limit it returns its input unchanged.
\<close>

theorem limiter_list_prefix:
  "0 \<le> n \<Longrightarrow>
     limiter (PyList xs) (Some n) = PyList (take (min (nat n) (length xs)) xs) \<and>
     limiter (data :: ('a, 'b) iterable) None = data"
  by (simp add: limiter_def slice_upto_nonneg min_def)

theorem limiter_list_prefix_witness:
  "(0::int) \<le> 2 \<and>
   limiter (PyList [10, 20, 30 :: nat] :: (nat, unit) iterable) (Some 2) = PyList [10, 20] \<and>
   limiter (PyList [10, 20, 30 :: nat] :: (nat, unit) iterable) None = PyList [10, 20, 30]"
  using limiter_list_prefix [of 2 "[10, 20, 30 :: nat]" "PyList [10, 20, 30 :: nat] :: (nat, unit) iterable"]
  by simp

text \<open>
  C6 as written quantifies over every integer limit. With the limit \<open>-1\<close> the slice
  \<^verbatim>\<open>data[:-1]\<close> drops the last element: two of three elements come back, which is
  not \<open>min (-1) 3\<close> elements.
\<close>

theorem limiter_negative_limit_counterexample:
  "limiter (PyList [10, 20, 30 :: nat] :: (nat, unit) iterable) (Some (- 1)) = PyList [10, 20] \<and>
   int (length [10, 20 :: nat]) \<noteq> min (- 1) (int (length [10, 20, 30 :: nat]))"
  by (simp add: limiter_def slice_upto_def)

text \<open>
  C7: an input that is not a concrete list comes back unchanged, whatever limit is
  supplied; only list inputs are ever truncated.
\<close>

theorem limiter_non_list_unchanged: "limiter (NonList x) limit = NonList x"
  by (simp add: limiter_def split: option.split)

section \<open>Properties of the content decoder\<close>

subsection \<open>Base64 round trip\<close>

lemma of_char_b2a:
  "n < 64 \<Longrightarrow> (of_char (table_b2a_base64 n) :: nat) =
     (if n < 26 then 65 + n else if n < 52 then 71 + n else if n < 62 then n - 4
      else if n = 62 then 43 else 47)"
  by (simp add: table_b2a_base64_def)

lemma a2b_b2a: "n < 64 \<Longrightarrow> table_a2b_base64 (table_b2a_base64 n) = Some n"
  by (auto simp: table_a2b_base64_def of_char_b2a Let_def)

lemma b2a_not_pad: "n < 64 \<Longrightarrow> table_b2a_base64 n \<noteq> CHR ''=''"
proof
  assume "n < 64" and "table_b2a_base64 n = CHR ''=''"
  then have "(of_char (table_b2a_base64 n) :: nat) = 61" by simp
  with \<open>n < 64\<close> show False by (simp add: of_char_b2a split: if_splits)
qed

lemma b2a_ascii: "n < 64 \<Longrightarrow> (of_char (table_b2a_base64 n) :: nat) < 128"
  by (auto simp: of_char_b2a)

lemma unat_byte_lt: "unat (b::byte) < 256"
  using unsigned_less [of b] by simp

lemma a2b_step:
  "n < 64 \<Longrightarrow> a2b_base64 (table_b2a_base64 n # cs) q l p out =
     (if q = 0 then a2b_base64 cs 1 n 0 out
      else if q = 1 then a2b_base64 cs 2 (n mod 16) 0 (out @ [of_nat (l * 4 + n div 16)])
      else if q = 2 then a2b_base64 cs 3 (n mod 4) 0 (out @ [of_nat (l * 16 + n div 4)])
      else a2b_base64 cs 0 0 0 (out @ [of_nat (l * 64 + n)]))"
  by (simp add: a2b_b2a b2a_not_pad)

lemma a2b_pad:
  "a2b_base64 (CHR ''='' # cs) q l p out =
     (if q \<ge> 2 then (if q + (p + 1) \<ge> 4 then Inr out else a2b_base64 cs q l (p + 1) out)
      else a2b_base64 cs q l p out)"
  by simp

lemma sextet1: "unat (a::byte) div 4 < 64"
  using unat_byte_lt [of a] by simp

lemma sextet2: "unat (a::byte) mod 4 * 16 + unat (b::byte) div 16 < 64"
  using unat_byte_lt [of b] by simp

lemma sextet3: "unat (b::byte) mod 16 * 4 + unat (c::byte) div 64 < 64"
  using unat_byte_lt [of c] by arith

lemma sextet4: "unat (c::byte) mod 64 < 64"
  by simp

lemma octet1:
  "(of_nat (unat a div 4 * 4 + (unat a mod 4 * 16 + unat (b::byte) div 16) div 16) :: byte) = a"
proof -
  have "unat b div 16 < 16" using unat_byte_lt [of b] by simp
  then have "(unat a mod 4 * 16 + unat b div 16) div 16 = unat a mod 4" by simp
  then show ?thesis by simp
qed

lemma octet1_pad:
  "(of_nat (unat a div 4 * 4 + (unat a mod 4 * 16) div 16) :: byte) = a"
  by simp

lemma octet2:
  "(of_nat ((unat a mod 4 * 16 + unat b div 16) mod 16 * 16
      + (unat b mod 16 * 4 + unat (c::byte) div 64) div 4) :: byte) = b"
proof -
  have c: "unat c div 64 < 4" using unat_byte_lt [of c] by simp
  have b: "unat b div 16 < 16" using unat_byte_lt [of b] by simp
  have "(unat a mod 4 * 16 + unat b div 16) mod 16 = unat b div 16" using b by simp
  moreover have "(unat b mod 16 * 4 + unat c div 64) div 4 = unat b mod 16" using c by simp
  ultimately show ?thesis by simp
qed

lemma octet2_pad:
  "(of_nat ((unat a mod 4 * 16 + unat b div 16) mod 16 * 16 + (unat b mod 16 * 4) div 4) :: byte) = b"
proof -
  have b: "unat b div 16 < 16" using unat_byte_lt [of b] by simp
  have "(unat a mod 4 * 16 + unat b div 16) mod 16 = unat b div 16" using b by simp
  then show ?thesis by simp
qed

lemma octet3:
  "(of_nat ((unat b mod 16 * 4 + unat c div 64) mod 4 * 64 + unat c mod 64) :: byte) = c"
proof -
  have c: "unat c div 64 < 4" using unat_byte_lt [of c] by simp
  have "(unat b mod 16 * 4 + unat c div 64) mod 4 = unat c div 64" using c by simp
  then show ?thesis by simp
qed

lemma sextet2_pad: "unat (a::byte) mod 4 * 16 < 64"
  by arith

lemma sextet3_pad: "unat (b::byte) mod 16 * 4 < 64"
  by arith

lemma a2b_b64encode: "a2b_base64 (b64encode bs) 0 l p out = Inr (out @ bs)"
proof (induction bs arbitrary: l p out rule: b64encode.induct)
  case 1
  show ?case by simp
next
  case (2 a)
  define e1 where "e1 = unat a div 4"
  define e2 where "e2 = unat a mod 4 * 16"
  have lt: "e1 < 64" "e2 < 64"
    by (simp_all add: e1_def e2_def sextet1 sextet2_pad)
  have o1: "(of_nat (e1 * 4 + e2 div 16) :: byte) = a"
    unfolding e1_def e2_def by (rule octet1_pad)
  have enc: "b64encode [a] = [table_b2a_base64 e1, table_b2a_base64 e2, CHR ''='', CHR ''='']"
    by (simp add: e1_def e2_def)
  show ?case unfolding enc
    by (simp add: a2b_step a2b_pad lt o1 del: a2b_base64.simps(2) of_nat_add of_nat_mult)
next
  case (3 a b)
  define e1 where "e1 = unat a div 4"
  define e2 where "e2 = unat a mod 4 * 16 + unat b div 16"
  define e3 where "e3 = unat b mod 16 * 4"
  have lt: "e1 < 64" "e2 < 64" "e3 < 64"
    by (simp_all add: e1_def e2_def e3_def sextet1 sextet2 sextet3_pad)
  have o1: "(of_nat (e1 * 4 + e2 div 16) :: byte) = a"
    unfolding e1_def e2_def by (rule octet1)
  have o2: "(of_nat (e2 mod 16 * 16 + e3 div 4) :: byte) = b"
    unfolding e2_def e3_def by (rule octet2_pad)
  have enc: "b64encode [a, b] =
      [table_b2a_base64 e1, table_b2a_base64 e2, table_b2a_base64 e3, CHR ''='']"
    by (simp add: e1_def e2_def e3_def)
  show ?case unfolding enc
    by (simp add: a2b_step a2b_pad lt o1 o2 del: a2b_base64.simps(2) of_nat_add of_nat_mult)
next
  case (4 a b c rest)
  define e1 where "e1 = unat a div 4"
  define e2 where "e2 = unat a mod 4 * 16 + unat b div 16"
  define e3 where "e3 = unat b mod 16 * 4 + unat c div 64"
  define e4 where "e4 = unat c mod 64"
  have lt: "e1 < 64" "e2 < 64" "e3 < 64" "e4 < 64"
    by (simp_all add: e1_def e2_def e3_def e4_def sextet1 sextet2 sextet3)
  have o1: "(of_nat (e1 * 4 + e2 div 16) :: byte) = a"
    unfolding e1_def e2_def by (rule octet1)
  have o2: "(of_nat (e2 mod 16 * 16 + e3 div 4) :: byte) = b"
    unfolding e2_def e3_def by (rule octet2)
  have o3: "(of_nat (e3 mod 4 * 64 + e4) :: byte) = c"
    unfolding e3_def e4_def by (rule octet3)
  have enc: "b64encode (a # b # c # rest) =
      table_b2a_base64 e1 # table_b2a_base64 e2 # table_b2a_base64 e3 # table_b2a_base64 e4
        # b64encode rest"
    by (simp add: e1_def e2_def e3_def e4_def)
  show ?case unfolding enc
    by (simp add: a2b_step lt o1 o2 o3 "4.IH" del: a2b_base64.simps(2) of_nat_add of_nat_mult)
qed


lemma b64encode_ascii: "c \<in> set (b64encode bs) \<Longrightarrow> (of_char c :: nat) < 128"
  by (induction bs rule: b64encode.induct)
     (auto simp: b2a_ascii sextet1 sextet2 sextet3 sextet2_pad sextet3_pad)

lemma b64decode_b64encode: "b64decode (b64encode bs) = Inr bs"
  using b64encode_ascii [of _ bs] by (auto simp: b64decode_def a2b_b64encode not_le)

subsection \<open>UTF-8 round trip\<close>

lemma byte_of_unat: "unat (b::byte) = n \<Longrightarrow> (of_nat n :: byte) = b"
  by auto

lemma split64:
  fixes x l :: nat
  assumes "l < 64"
  shows "(x * 64 + l) div 64 = x" and "(x * 64 + l) mod 64 = l"
  using assms by simp_all

lemma enc1: "unat (b0::byte) < 128 \<Longrightarrow> encode_code_point (unat b0) = Some [b0]"
  by (simp add: encode_code_point_def)

lemma enc2:
  assumes "194 \<le> unat (b0::byte)" "unat b0 < 224" "is_continuation b1"
  shows "encode_code_point ((unat b0 - 192) * 64 + (unat b1 - 128)) = Some [b0, b1]"
proof -
  define h where "h = unat b0 - 192"
  define l where "l = unat b1 - 128"
  have h: "2 \<le> h" "h < 32" "unat b0 = 192 + h" using assms by (auto simp: h_def)
  have l: "l < 64" "unat b1 = 128 + l" using assms by (auto simp: l_def is_continuation_def)
  have cp: "(h * 64 + l) div 64 = h" "(h * 64 + l) mod 64 = l" "128 \<le> h * 64 + l" "h * 64 + l < 2048"
    using h l by auto
  have "(of_nat (192 + h) :: byte) = b0" "(of_nat (128 + l) :: byte) = b1"
    by (rule byte_of_unat [OF h(3)], rule byte_of_unat [OF l(2)])
  then show ?thesis
    unfolding h_def [symmetric] l_def [symmetric]
    using cp by (simp add: encode_code_point_def del: of_nat_add)
qed

lemma enc3:
  assumes "224 \<le> unat (b0::byte)" "unat b0 < 240" "is_continuation b1" "is_continuation b2"
    and "2048 \<le> (unat b0 - 224) * 4096 + (unat b1 - 128) * 64 + (unat b2 - 128)"
    and "\<not> (55296 \<le> (unat b0 - 224) * 4096 + (unat b1 - 128) * 64 + (unat b2 - 128)
          \<and> (unat b0 - 224) * 4096 + (unat b1 - 128) * 64 + (unat b2 - 128) \<le> 57343)"
  shows "encode_code_point ((unat b0 - 224) * 4096 + (unat b1 - 128) * 64 + (unat b2 - 128))
           = Some [b0, b1, b2]"
proof -
  define h where "h = unat b0 - 224"
  define m where "m = unat b1 - 128"
  define l where "l = unat b2 - 128"
  define cp where "cp = h * 4096 + m * 64 + l"
  have h: "h < 16" "unat b0 = 224 + h" using assms by (auto simp: h_def)
  have m: "m < 64" "unat b1 = 128 + m" using assms by (auto simp: m_def is_continuation_def)
  have l: "l < 64" "unat b2 = 128 + l" using assms by (auto simp: l_def is_continuation_def)
  have e: "cp = (h * 64 + m) * 64 + l" by (simp add: cp_def)
  have d: "cp div 4096 = h" "cp div 64 mod 64 = m" "cp mod 64 = l" "cp < 65536"
  proof -
    show "cp div 4096 = h" using m(1) l(1) by (simp add: cp_def)
    have "cp div 64 = h * 64 + m" unfolding e by (rule split64(1) [OF l(1)])
    then show "cp div 64 mod 64 = m" by (simp only: split64(2) [OF m(1)])
    show "cp mod 64 = l" unfolding e by (rule split64(2) [OF l(1)])
    show "cp < 65536" using h(1) m(1) l(1) by (simp add: cp_def)
  qed
  have r: "2048 \<le> cp" "\<not> (55296 \<le> cp \<and> cp \<le> 57343)"
    using assms(5,6) by (simp_all add: cp_def h_def m_def l_def)
  have "(of_nat (224 + h) :: byte) = b0" "(of_nat (128 + m) :: byte) = b1"
    "(of_nat (128 + l) :: byte) = b2"
    by (rule byte_of_unat [OF h(2)], rule byte_of_unat [OF m(2)], rule byte_of_unat [OF l(2)])
  then have "encode_code_point cp = Some [b0, b1, b2]"
    using d r by (simp add: encode_code_point_def del: of_nat_add)
  then show ?thesis by (simp add: cp_def h_def m_def l_def)
qed

lemma enc4:
  assumes "240 \<le> unat (b0::byte)" "unat b0 < 245"
    and "is_continuation b1" "is_continuation b2" "is_continuation b3"
    and "65536 \<le> (unat b0 - 240) * 262144 + (unat b1 - 128) * 4096
                    + (unat b2 - 128) * 64 + (unat b3 - 128)"
    and "(unat b0 - 240) * 262144 + (unat b1 - 128) * 4096
                    + (unat b2 - 128) * 64 + (unat b3 - 128) \<le> 1114111"
  shows "encode_code_point ((unat b0 - 240) * 262144 + (unat b1 - 128) * 4096
                    + (unat b2 - 128) * 64 + (unat b3 - 128)) = Some [b0, b1, b2, b3]"
proof -
  define h where "h = unat b0 - 240"
  define m where "m = unat b1 - 128"
  define k where "k = unat b2 - 128"
  define l where "l = unat b3 - 128"
  define cp where "cp = h * 262144 + m * 4096 + k * 64 + l"
  have h: "h < 5" "unat b0 = 240 + h" using assms by (auto simp: h_def)
  have m: "m < 64" "unat b1 = 128 + m" using assms by (auto simp: m_def is_continuation_def)
  have k: "k < 64" "unat b2 = 128 + k" using assms by (auto simp: k_def is_continuation_def)
  have l: "l < 64" "unat b3 = 128 + l" using assms by (auto simp: l_def is_continuation_def)
  have e: "cp = ((h * 64 + m) * 64 + k) * 64 + l" by (simp add: cp_def)
  have e': "cp = (h * 64 + m) * 4096 + (k * 64 + l)" by (simp add: cp_def)
  have d: "cp div 262144 = h" "cp div 4096 mod 64 = m" "cp div 64 mod 64 = k" "cp mod 64 = l"
  proof -
    show "cp div 262144 = h" using m(1) k(1) l(1) by (simp add: cp_def)
    have "k * 64 + l < 4096" using k(1) l(1) by simp
    then have "cp div 4096 = h * 64 + m" unfolding e' by simp
    then show "cp div 4096 mod 64 = m" using m(1) by simp
    have "cp div 64 = (h * 64 + m) * 64 + k" unfolding e by (rule split64(1) [OF l(1)])
    then show "cp div 64 mod 64 = k" by (simp only: split64(2) [OF k(1)])
    show "cp mod 64 = l" unfolding e by (rule split64(2) [OF l(1)])
  qed
  have r: "65536 \<le> cp" "cp < 1114112"
    using assms(6,7) by (simp_all add: cp_def h_def m_def k_def l_def)
  have "(of_nat (240 + h) :: byte) = b0" "(of_nat (128 + m) :: byte) = b1"
    "(of_nat (128 + k) :: byte) = b2" "(of_nat (128 + l) :: byte) = b3"
    by (rule byte_of_unat [OF h(2)], rule byte_of_unat [OF m(2)],
        rule byte_of_unat [OF k(2)], rule byte_of_unat [OF l(2)])
  then have "encode_code_point cp = Some [b0, b1, b2, b3]"
    using d r by (simp add: encode_code_point_def del: of_nat_add)
  then show ?thesis by (simp add: cp_def h_def m_def k_def l_def)
qed

lemma utf8_roundtrip: "utf8_decode bs = Some t \<Longrightarrow> utf8_encode t = Some bs"
proof (induction bs arbitrary: t rule: utf8_decode.induct)
  case 1
  then show ?case by simp
next
  case (2 b0 bs)
  consider (one) "unat b0 < 128"
    | (two) "194 \<le> unat b0" "unat b0 < 224"
    | (three) "224 \<le> unat b0" "unat b0 < 240"
    | (four) "240 \<le> unat b0" "unat b0 < 245"
    | (bad) "128 \<le> unat b0" "unat b0 < 194" | (bad2) "245 \<le> unat b0"
    by linarith
  then show ?case
  proof cases
    case one
    with "2.prems" obtain t' where t': "utf8_decode bs = Some t'" "t = unat b0 # t'"
      by auto
    with "2.IH"(1) [OF one t'(1)] one show ?thesis by (simp add: enc1)
  next
    case two
    with "2.prems" obtain b1 rest t' where
      s: "bs = b1 # rest" "is_continuation b1" "utf8_decode rest = Some t'"
         "t = ((unat b0 - 192) * 64 + (unat b1 - 128)) # t'"
      by (auto split: list.splits if_splits)
    have "utf8_encode t' = Some rest"
      using "2.IH"(2) [of b1 rest t'] two s by simp
    with enc2 [OF two s(2)] s show ?thesis by simp
  next
    case three
    with "2.prems" obtain b1 b2 rest t' where
      s: "bs = b1 # b2 # rest" "is_continuation b1" "is_continuation b2"
         "utf8_decode rest = Some t'"
         "2048 \<le> (unat b0 - 224) * 4096 + (unat b1 - 128) * 64 + (unat b2 - 128)"
         "\<not> (55296 \<le> (unat b0 - 224) * 4096 + (unat b1 - 128) * 64 + (unat b2 - 128)
          \<and> (unat b0 - 224) * 4096 + (unat b1 - 128) * 64 + (unat b2 - 128) \<le> 57343)"
         "t = ((unat b0 - 224) * 4096 + (unat b1 - 128) * 64 + (unat b2 - 128)) # t'"
      by (auto simp: Let_def split: list.splits if_splits)
    have "utf8_encode t' = Some rest"
      using "2.IH"(3) [of b1 "b2 # rest" b2 rest _ t'] three s by (simp add: Let_def)
    with enc3 [OF three s(2,3,5,6)] s show ?thesis by simp
  next
    case four
    with "2.prems" obtain b1 b2 b3 rest t' where
      s: "bs = b1 # b2 # b3 # rest" "is_continuation b1" "is_continuation b2"
         "is_continuation b3" "utf8_decode rest = Some t'"
         "65536 \<le> (unat b0 - 240) * 262144 + (unat b1 - 128) * 4096
                    + (unat b2 - 128) * 64 + (unat b3 - 128)"
         "(unat b0 - 240) * 262144 + (unat b1 - 128) * 4096
                    + (unat b2 - 128) * 64 + (unat b3 - 128) \<le> 1114111"
         "t = ((unat b0 - 240) * 262144 + (unat b1 - 128) * 4096
                    + (unat b2 - 128) * 64 + (unat b3 - 128)) # t'"
      by (auto simp: Let_def split: list.splits if_splits)
    have "utf8_encode t' = Some rest"
      using "2.IH"(4) [of b1 "b2 # b3 # rest" b2 "b3 # rest" b3 rest _ t'] four s
      by (simp add: Let_def)
    with enc4 [OF four s(2,3,4,6,7)] s show ?thesis by simp
  next
    case bad
    with "2.prems" show ?thesis by simp
  next
    case bad2
    with "2.prems" show ?thesis by simp
  qed
qed


subsection \<open>What \<^verbatim>\<open>decode_content\<close> returns\<close>

lemma decode_content_decodable:
  "b64decode s = Inr bs \<Longrightarrow>
     decode_content s =
       (case utf8_decode bs of Some t \<Rightarrow> Inr (Text t, 1) | None \<Rightarrow> Inr (Binary bs, 0))"
  by (simp add: decode_content_def split: option.split)

lemma decode_content_undecodable: "b64decode s = Inl e \<Longrightarrow> decode_content s = Inl e"
  by (simp add: decode_content_def)





text \<open>
  C4, as amended: for every input that \<^verbatim>\<open>b64decode\<close> accepts, \<^verbatim>\<open>decode_content\<close>
  returns and never raises; a UTF-8 decoding failure is reported by the raw decoded
  bytes with the flag 0, and a success by the text with the flag 1.
\<close>

theorem decode_content_never_raises_on_base64:
  "b64decode s = Inr bs \<Longrightarrow>
     (\<exists>r. decode_content s = Inr r) \<and>
     (utf8_decode bs = None \<longrightarrow> decode_content s = Inr (Binary bs, 0)) \<and>
     (\<forall>t. utf8_decode bs = Some t \<longrightarrow> decode_content s = Inr (Text t, 1))"
  by (simp add: decode_content_decodable split: option.split)

theorem decode_content_never_raises_on_base64_witness:
  "b64decode ''//4='' = Inr [255, 254] \<and> utf8_decode [255, 254] = None \<and>
   decode_content ''//4='' = Inr (Binary [255, 254], 0)"
proof -
  have d: "b64decode ''//4='' = Inr [255, 254]"
    by (simp add: b64decode_def table_a2b_base64_def)
  have u: "utf8_decode [255, 254 :: byte] = None"
    by simp
  from decode_content_never_raises_on_base64 [OF d] u d show ?thesis
    by simp
qed

text \<open>
  C4 as written covers every input string. On the string \<^verbatim>\<open>"a"\<close>, which is not
  base64 (one data character cannot end a group), the first \<^verbatim>\<open>b64decode\<close> raises inside
  the \<^verbatim>\<open>try\<close>, the handler calls \<^verbatim>\<open>b64decode\<close> again, and that exception escapes.
\<close>

theorem decode_content_raises_counterexample: "decode_content ''a'' = Inl BinasciiError"
  by (simp add: decode_content_def b64decode_def table_a2b_base64_def)


section \<open>Properties of the clone\<close>

subsection \<open>Every step advances the world\<close>

lemma final_simps [simp]: "final (Inl (e, w)) = w" "final (Inr w) = w"
  by (simp_all add: final_def)

lemma last_write_None: "(\<forall>pl. WriteFile p pl \<notin> set evs) \<Longrightarrow> last_write p evs = None"
  by (induction evs) (auto split: event.splits)

lemma last_write_mem: "last_write p evs = Some pl \<Longrightarrow> WriteFile p pl \<in> set evs"
  by (induction evs) (auto split: option.splits event.splits if_splits)

lemma last_write_Some: "WriteFile p pl \<in> set evs \<Longrightarrow> last_write p evs \<noteq> None"
  by (induction evs) (auto split: option.splits event.splits)

lemma last_write_append:
  "last_write p (a @ b) =
     (case last_write p b of Some pl \<Rightarrow> Some pl | None \<Rightarrow> last_write p a)"
  by (induction a) (auto split: option.splits)

lemma advance_refl: "advance w w"
  by (simp add: advance_def ref_free_def)

lemma advance_events_only:
  "fs w' = fs w \<Longrightarrow> events w' = events w @ new \<Longrightarrow> ref_free new
     \<Longrightarrow> \<forall>p pl. WriteFile p pl \<notin> set new \<Longrightarrow> advance w w'"
  by (auto simp: advance_def last_write_None)

lemma ref_free_append: "ref_free (a @ b) \<longleftrightarrow> ref_free a \<and> ref_free b"
  by (auto simp: ref_free_def)

lemma advance_trans:
  assumes "advance w1 w2" and "advance w2 w3"
  shows "advance w1 w3"
proof -
  from assms(1) obtain n1 where n1: "events w2 = events w1 @ n1" "ref_free n1"
    and f1: "\<And>p n. fs w1 p = Some n \<Longrightarrow>
           fs w2 p = Some n \<or>
           (\<exists>x y pl. n = File x \<and> fs w2 p = Some (File y) \<and> WriteFile p pl \<in> set n1)"
    and e1: "\<And>p pl. WriteFile p pl \<in> set n1 \<Longrightarrow> \<exists>bs. fs w2 p = Some (File bs)"
    and c1: "\<And>p pl. last_write p n1 = Some pl \<Longrightarrow> fs w2 p = Some (File (payload_bytes pl))"
    unfolding advance_def by blast
  from assms(2) obtain n2 where n2: "events w3 = events w2 @ n2" "ref_free n2"
    and f2: "\<And>p n. fs w2 p = Some n \<Longrightarrow>
           fs w3 p = Some n \<or>
           (\<exists>x y pl. n = File x \<and> fs w3 p = Some (File y) \<and> WriteFile p pl \<in> set n2)"
    and e2: "\<And>p pl. WriteFile p pl \<in> set n2 \<Longrightarrow> \<exists>bs. fs w3 p = Some (File bs)"
    and c2: "\<And>p pl. last_write p n2 = Some pl \<Longrightarrow> fs w3 p = Some (File (payload_bytes pl))"
    unfolding advance_def by blast
  have ev: "events w3 = events w1 @ (n1 @ n2)" using n1 n2 by simp
  have rf: "ref_free (n1 @ n2)" using n1 n2 by (simp add: ref_free_append)
  have keepfile: "\<exists>bs. fs w3 p = Some (File bs)" if "fs w2 p = Some (File y)" for p y
    using f2 [OF that] by auto
  have fr: "fs w3 p = Some n \<or>
           (\<exists>x y pl. n = File x \<and> fs w3 p = Some (File y) \<and> WriteFile p pl \<in> set (n1 @ n2))"
    if "fs w1 p = Some n" for p n
  proof -
    from f1 [OF that] show ?thesis
    proof
      assume "fs w2 p = Some n"
      from f2 [OF this] show ?thesis by auto
    next
      assume "\<exists>x y pl. n = File x \<and> fs w2 p = Some (File y) \<and> WriteFile p pl \<in> set n1"
      then obtain x y pl where a: "n = File x" "fs w2 p = Some (File y)" "WriteFile p pl \<in> set n1"
        by blast
      from keepfile [OF a(2)] a show ?thesis by auto
    qed
  qed
  have ex: "\<exists>bs. fs w3 p = Some (File bs)" if "WriteFile p pl \<in> set (n1 @ n2)" for p pl
  proof -
    from that consider "WriteFile p pl \<in> set n1" | "WriteFile p pl \<in> set n2" by auto
    then show ?thesis
    proof cases
      case 1
      from e1 [OF 1] obtain y where "fs w2 p = Some (File y)" by blast
      from keepfile [OF this] show ?thesis .
    next
      case 2
      from e2 [OF 2] show ?thesis .
    qed
  qed
  have co: "fs w3 p = Some (File (payload_bytes pl))"
    if lw: "last_write p (n1 @ n2) = Some pl" for p pl
  proof (cases "last_write p n2")
    case (Some pl2)
    with lw have "pl2 = pl" by (simp add: last_write_append)
    with c2 [OF Some] show ?thesis by simp
  next
    case None
    with lw have l1: "last_write p n1 = Some pl" by (simp add: last_write_append)
    from None have nw: "\<And>pl'. WriteFile p pl' \<notin> set n2"
      using last_write_Some by blast
    from f2 [OF c1 [OF l1]] nw show ?thesis by blast
  qed
  show ?thesis unfolding advance_def
    using ev rf fr ex co by blast
qed

lemma advance_info: "advance w (info gh msg w)"
  by (rule advance_events_only [where new = "if warnings gh then [Notice msg] else []"])
     (auto simp: info_def ref_free_def)

lemma advance_get_repo:
  "get_repo gh origin w = Inl (e, w') \<Longrightarrow> advance w w'"
  "get_repo gh origin w = Inr w' \<Longrightarrow> advance w w'"
  by (auto simp: get_repo_def Let_def ref_free_def split: option.splits
           intro!: advance_events_only [where new = "[Request (GetRepo origin)]"])

lemma advance_get_contents:
  "get_contents gh origin p None w = Inl (e, w') \<Longrightarrow> advance w w'"
  "get_contents gh origin p None w = Inr (x, w') \<Longrightarrow> advance w w'"
  by (auto simp: get_contents_def Let_def ref_free_def split: sum.splits
           intro!: advance_events_only [where new = "[Request (GetContents origin p None)]"])

lemma advance_get_repo_content:
  "get_repo_content gh origin p None w = Inl (e, w') \<Longrightarrow> advance w w'"
  "get_repo_content gh origin p None w = Inr (x, w') \<Longrightarrow> advance w w'"
  by (auto simp: get_repo_content_def split: sum.splits
           intro: advance_trans advance_get_repo advance_get_contents)

lemma decode_content_consistent:
  "decode_content s = Inr (pl, flag) \<Longrightarrow> consistent pl flag"
  by (auto simp: decode_content_def utf8_roundtrip split: sum.splits option.splits)

lemma advance_get_file_content:
  "get_file_content gh origin p None w = Inl (e, w') \<Longrightarrow> advance w w'"
  "get_file_content gh origin p None w = Inr ((pl, flag), w') \<Longrightarrow> advance w w' \<and> consistent pl flag"
  by (auto simp: get_file_content_def split: sum.splits response.splits
           intro: decode_content_consistent)
     (blast intro: advance_trans advance_get_repo advance_get_contents)+


lemma os_mkdir_Inr: "os_mkdir p fsys = Inr fs' \<Longrightarrow> fsys p = None \<and> fs' = fsys(p \<mapsto> Dir)"
  by (auto simp: os_mkdir_def split: if_splits option.splits node.splits)

lemma mkdir_grows:
  "(mkdir p fsys = Inl (e, fs') \<longrightarrow> (\<forall>q n. fsys q = Some n \<longrightarrow> fs' q = Some n)) \<and>
   (mkdir p fsys = Inr fs' \<longrightarrow> (\<forall>q n. fsys q = Some n \<longrightarrow> fs' q = Some n))"
proof (induction p fsys arbitrary: e fs' rule: mkdir.induct)
  case (1 p fsys)
  show ?case
  proof (cases "os_mkdir p fsys")
    case (Inr f)
    with os_mkdir_Inr [OF Inr] show ?thesis
      by (auto simp: mkdir.simps [of p fsys])
  next
    case (Inl e0)
    show ?thesis
    proof (cases "e0 = FileNotFoundError \<and> p \<noteq> []")
      case False
      with Inl show ?thesis
        by (auto simp: mkdir.simps [of p fsys] split: if_splits)
    next
      case True
      note IH = "1.IH" [OF Inl _ _] 
      show ?thesis
      proof (cases "mkdir (butlast p) fsys")
        case (Inl r)
        obtain e1 f1 where r: "r = (e1, f1)" by (cases r)
        from IH [of e1 f1] True Inl r \<open>os_mkdir p fsys = Inl e0\<close> show ?thesis
          by (auto simp: mkdir.simps [of p fsys])
      next
        case (Inr fs1)
        from IH [of _ fs1] True Inr have g: "\<forall>q n. fsys q = Some n \<longrightarrow> fs1 q = Some n"
          by auto
        show ?thesis
        proof (cases "os_mkdir p fs1")
          case (Inr fs2)
          from os_mkdir_Inr [OF Inr] g True \<open>os_mkdir p fsys = Inl e0\<close>
            \<open>mkdir (butlast p) fsys = Inr fs1\<close> Inr
          show ?thesis
            by (auto simp: mkdir.simps [of p fsys])
        next
          case (Inl e2)
          with g True \<open>os_mkdir p fsys = Inl e0\<close> \<open>mkdir (butlast p) fsys = Inr fs1\<close>
          show ?thesis
            by (auto simp: mkdir.simps [of p fsys] split: if_splits)
        qed
      qed
    qed
  qed
qed

lemma advance_grow:
  "events w' = events w @ [MkDir p] \<Longrightarrow> \<forall>q n. fs w q = Some n \<longrightarrow> fs w' q = Some n
     \<Longrightarrow> advance w w'"
  by (auto simp: advance_def ref_free_def)

lemma advance_make_dir:
  "make_dir p w = Inl (e, w') \<Longrightarrow> advance w w'"
  "make_dir p w = Inr w' \<Longrightarrow> advance w w'"
  using mkdir_grows [of p "fs w"]
  by (auto simp: make_dir_def Let_def split: sum.splits prod.splits intro!: advance_grow [where p = p])

lemma open_w_Inr:
  "open_w p fsys = Inr fs0 \<Longrightarrow> fsys p \<noteq> Some Dir \<and> p \<noteq> [] \<and> fs0 = fsys(p \<mapsto> File [])"
  by (auto simp: open_w_def node_at_def split: if_splits option.splits node.splits)

lemma advance_written:
  assumes "events w' = events w @ [WriteFile p pl]" "fs w' = (fs w)(p \<mapsto> File bs)"
    "fs w p \<noteq> Some Dir" "payload_bytes pl = bs"
  shows "advance w w'"
proof -
  have "fs w' q = Some n \<or>
         (\<exists>x y pl'. n = File x \<and> fs w' q = Some (File y) \<and> WriteFile q pl' \<in> set [WriteFile p pl])"
    if "fs w q = Some n" for q n
  proof (cases "q = p")
    case True
    with that assms(3) obtain x where "n = File x" by (cases n) auto
    with True assms(2) show ?thesis by auto
  next
    case False
    with that assms(2) show ?thesis by simp
  qed
  moreover have "\<exists>bs'. fs w' q = Some (File bs')" if "WriteFile q pl' \<in> set [WriteFile p pl]" for q pl'
    using that assms(2) by auto
  moreover have "ref_free [WriteFile p pl]" by (simp add: ref_free_def)
  moreover have "fs w' q = Some (File (payload_bytes pl'))"
    if "last_write q [WriteFile p pl] = Some pl'" for q pl'
    using that assms(2,4) by (auto split: if_splits)
  ultimately show ?thesis unfolding advance_def using assms(1) by blast
qed

lemma advance_write_file:
  assumes "consistent pl flag"
  shows "write_file p flag pl w = Inl (e, w') \<Longrightarrow> advance w w'"
    and "write_file p flag pl w = Inr w' \<Longrightarrow> advance w w'"
proof -
  show "write_file p flag pl w = Inl (e, w') \<Longrightarrow> advance w w'"
    using assms
    by (cases pl) (auto simp: write_file_def advance_refl split: sum.splits if_splits option.splits)
  show "write_file p flag pl w = Inr w' \<Longrightarrow> advance w w'"
    using assms
    by (cases pl)
       (auto simp: write_file_def payload_bytes_def split: sum.splits if_splits option.splits
             dest!: open_w_Inr intro!: advance_written)
qed


lemma advance_walk:
  "advance w (final (process_content gh origin name d c w))"
  "advance w (final (process_all gh origin name d cs w))"
proof (induction gh origin name d c w and gh origin name d cs w
       rule: process_content_process_all.induct)
  case (1 gh origin name c w)
  show ?case by (simp add: advance_refl)
next
  case (2 gh origin name depth c w)
  let ?w0 = "info gh (''Processing directory: '' @ cpath c) w"
  let ?p = "Path name @ Path (cpath c)"
  show ?case
  proof (cases "ctype c = ''dir''")
    case True
    show ?thesis
    proof (cases "make_dir ?p ?w0")
      case (Inl r)
      obtain e w1 where r: "r = (e, w1)" by (cases r)
      have "advance w w1"
        using advance_trans [OF advance_info advance_make_dir(1)] Inl r by blast
      with True Inl r show ?thesis by simp
    next
      case (Inr w1)
      have a1: "advance w w1"
        using advance_trans [OF advance_info advance_make_dir(2)] Inr by blast
      show ?thesis
      proof (cases "get_repo_content gh origin (cpath c) None w1")
        case (Inl r)
        obtain e w2 where r: "r = (e, w2)" by (cases r)
        have "advance w w2"
          using advance_trans [OF a1 advance_get_repo_content(1)] Inl r by blast
        with True \<open>make_dir ?p ?w0 = Inr w1\<close> Inl r show ?thesis by simp
      next
        case (Inr r)
        obtain sub w2 where r: "r = (sub, w2)" by (cases r)
        have a2: "advance w w2"
          using advance_trans [OF a1 advance_get_repo_content(2)] Inr r by blast
        show ?thesis
        proof (cases sub)
          case (Listing cs)
          have "advance w2 (final (process_all gh origin name depth cs w2))"
            using "2.IH" [OF True \<open>make_dir ?p ?w0 = Inr w1\<close> Inr [unfolded r] refl Listing] .
          with a2 have "advance w (final (process_all gh origin name depth cs w2))"
            by (rule advance_trans)
          with True \<open>make_dir ?p ?w0 = Inr w1\<close> Inr r Listing show ?thesis by simp
        next
          case (SingleFile x)
          with True \<open>make_dir ?p ?w0 = Inr w1\<close> Inr r a2 show ?thesis by simp
        qed
      qed
    qed
  next
    case False
    note nd = False
    let ?w0 = "info gh (''Processing file: '' @ cpath c) w"
    show ?thesis
    proof (cases "ctype c = ''file''")
      case False
      with nd show ?thesis by (simp add: advance_refl)
    next
      case True
      show ?thesis
      proof (cases "get_file_content gh origin (cpath c) None ?w0")
        case (Inl r)
        obtain e w1 where r: "r = (e, w1)" by (cases r)
        have "advance w w1"
          using advance_trans [OF advance_info advance_get_file_content(1)] Inl r by blast
        with nd True Inl r show ?thesis by simp
      next
        case (Inr r)
        obtain pl flag w1 where r: "r = ((pl, flag), w1)" by (cases r) auto
        have a1: "advance ?w0 w1" and c: "consistent pl flag"
          using advance_get_file_content(2) Inr r by blast+
        have a2: "advance w w1" using advance_trans [OF advance_info a1] .
        have "advance w1 (final (write_file ?p flag pl w1))"
        proof (cases "write_file ?p flag pl w1")
          case (Inl q)
          obtain e w2 where "q = (e, w2)" by (cases q)
          with Inl advance_write_file(1) [OF c] show ?thesis by simp
        next
          case (Inr w2)
          with advance_write_file(2) [OF c] show ?thesis by simp
        qed
        with a2 have "advance w (final (write_file ?p flag pl w1))" by (rule advance_trans)
        with nd True Inr r show ?thesis by simp
      qed
    qed
  qed
next
  case (3 gh origin name depth w)
  show ?case by (simp add: advance_refl)
next
  case (4 gh origin name depth c cs w)
  show ?case
  proof (cases "process_content gh origin name depth c w")
    case (Inl r)
    obtain e w1 where "r = (e, w1)" by (cases r)
    with Inl "4.IH"(1) show ?thesis by simp
  next
    case (Inr w1)
    with "4.IH"(1) have "advance w w1" by simp
    moreover have "advance w1 (final (process_all gh origin name depth cs w1))"
      using "4.IH"(2) [OF Inr] .
    ultimately have "advance w (final (process_all gh origin name depth cs w1))"
      by (rule advance_trans)
    with Inr show ?thesis by simp
  qed
qed

subsection \<open>The shape of a \<^verbatim>\<open>clone_repo\<close> call\<close>

lemma new_events_append: "events w' = events w @ new \<Longrightarrow> new_events w w' = new"
  by (simp add: new_events_def)

lemma mkdir_Inr_dir: "mkdir p fsys = Inr fs' \<Longrightarrow> node_at fs' p = Some Dir"
  by (auto simp: mkdir.simps [of p fsys] node_at_def split: sum.splits if_splits dest!: os_mkdir_Inr)

lemma make_dir_Inr_dir: "make_dir p w = Inr w' \<Longrightarrow> node_at (fs w') p = Some Dir"
  by (auto simp: make_dir_def Let_def split: sum.splits prod.splits dest: mkdir_Inr_dir)

lemma advance_exists:
  "advance w w' \<Longrightarrow> exists_path (fs w) p \<Longrightarrow> exists_path (fs w') p"
  by (fastforce simp: advance_def exists_path_def node_at_def)

lemma advance_events: "advance w w' \<Longrightarrow> events w' = events w @ new_events w w'"
  by (auto simp: advance_def new_events_def)

lemma advance_ref_free: "advance w w' \<Longrightarrow> ref_free (new_events w w')"
  by (auto simp: advance_def new_events_def)

text \<open>The part of \<^verbatim>\<open>clone_repo\<close> after the root listing.\<close>

lemma clone_repo_unresolved:
  "resolve_origin u n ro = Inl e \<Longrightarrow> clone_repo gh u n ro ref ov w = Inl (e, w)"
  by (simp add: clone_repo_def)

lemma clone_repo_lookup_fails:
  "resolve_origin u n ro = Inr (origin, nm) \<Longrightarrow> remote_repo gh origin = Some e \<Longrightarrow>
     clone_repo gh u n ro ref ov w
       = Inl (e, w\<lparr>events := events w @ [Request (GetRepo origin)]\<rparr>)"
  by (simp add: clone_repo_def get_repo_def)

lemma clone_repo_listing_fails:
  "resolve_origin u n ro = Inr (origin, nm) \<Longrightarrow> remote_repo gh origin = None \<Longrightarrow>
   remote_contents gh origin [] ref = Inl e \<Longrightarrow>
     clone_repo gh u n ro ref ov w
       = Inl (e, w\<lparr>events := events w @ [Request (GetRepo origin),
                                              Request (GetContents origin [] ref)]\<rparr>)"
  by (simp add: clone_repo_def get_repo_def get_contents_def)

lemma clone_repo_skips:
  "resolve_origin u n ro = Inr (origin, Some name) \<Longrightarrow> remote_repo gh origin = None \<Longrightarrow>
   remote_contents gh origin [] ref = Inr contents \<Longrightarrow> exists_path (fs w) (Path name) \<Longrightarrow>
     clone_repo gh u n ro ref False w
       = Inr (info gh (''Repository '' @ name
                @ '' already exists. Skipping clone. (Set overwrite=True to force clone)'')
               (w\<lparr>events := events w @ [Request (GetRepo origin),
                                            Request (GetContents origin [] ref)]\<rparr>))"
  by (simp add: clone_repo_def get_repo_def get_contents_def)

lemma clone_repo_after_listing:
  assumes "resolve_origin u n ro = Inr (origin, nm)" "remote_repo gh origin = None"
    "remote_contents gh origin [] ref = Inr contents"
  shows "advance (w\<lparr>events := events w @ [Request (GetRepo origin),
                                            Request (GetContents origin [] ref)]\<rparr>)
           (final (clone_repo gh u n ro ref ov w))"
proof -
  let ?w2 = "w\<lparr>events := events w @ [Request (GetRepo origin),
                                            Request (GetContents origin [] ref)]\<rparr>"
  show ?thesis
  proof (cases nm)
    case None
    with assms show ?thesis
      by (simp add: clone_repo_def get_repo_def get_contents_def advance_refl)
  next
    case (Some name)
    let ?skip = "exists_path (fs w) (Path name) \<and> \<not> ov"
    let ?w2' = "if exists_path (fs w) (Path name)
                then info gh (''Repository '' @ name @ '' already exists. Overwriting objects.'') ?w2
                else ?w2"
    have a0: "advance ?w2 ?w2'" by (simp add: advance_info advance_refl)
    show ?thesis
    proof (cases ?skip)
      case True
      with assms Some show ?thesis
        by (simp add: clone_repo_def get_repo_def get_contents_def advance_info)
    next
      case False
      have r: "clone_repo gh u n ro ref ov w =
          (case make_dir (Path name) ?w2' of
             Inl r \<Rightarrow> Inl r
           | Inr w3 \<Rightarrow>
               (case contents of
                  Listing cs \<Rightarrow>
                    process_all gh origin name (recursion_limit gh) cs
                      (info gh (''Processing repository: '' @ name) w3)
                | SingleFile _ \<Rightarrow>
                    Inl (TypeError, info gh (''Processing repository: '' @ name) w3)))"
        using assms Some False
        by (cases "exists_path (fs w) (Path name)")
           (simp_all add: clone_repo_def get_repo_def get_contents_def)
      show ?thesis
      proof (cases "make_dir (Path name) ?w2'")
        case (Inl q)
        obtain e w3 where q: "q = (e, w3)" by (cases q)
        from advance_trans [OF a0 advance_make_dir(1)] Inl q have "advance ?w2 w3" by blast
        with r Inl q show ?thesis by simp
      next
        case (Inr w3)
        let ?w4 = "info gh (''Processing repository: '' @ name) w3"
        from advance_trans [OF a0 advance_make_dir(2)] Inr have "advance ?w2 w3" by blast
        then have a4: "advance ?w2 ?w4" using advance_info by (rule advance_trans)
        show ?thesis
        proof (cases contents)
          case (Listing cs)
          from advance_trans [OF a4 advance_walk(2)] r Inr Listing show ?thesis by simp
        next
          case (SingleFile x)
          with a4 r Inr show ?thesis by simp
        qed
      qed
    qed
  qed
qed

subsection \<open>The walk over a served tree\<close>





















lemma fs_events_info [simp]: "fs_events (info gh msg w) = fs_events w"
  by (simp add: info_def)

lemma fs_info [simp]: "fs (info gh msg w) = fs w"
  by (simp add: info_def)











subsection \<open>The walk stops at the first request that fails\<close>

lemma raised_simps [simp]: "raised (Inl (e, w)) = Some e" "raised (Inr w) = None"
  by (simp_all add: raised_def)

lemma clean_append: "clean gh (a @ b) \<longleftrightarrow> clean gh a \<and> clean gh b"
  by (auto simp: clean_def)

lemma stops_clean: "events w' = events w @ new \<Longrightarrow> clean gh new \<Longrightarrow> stops gh w w' err"
  by (auto simp: stops_def)

lemma stops_refl: "stops gh w w err"
  by (rule stops_clean [where new = "[]"]) (simp_all add: clean_def)

lemma stops_None_any: "stops gh w w' None \<Longrightarrow> stops gh w w' err"
  by (auto simp: stops_def)

lemma stops_trans:
  assumes "stops gh w1 w2 None" "stops gh w2 w3 err"
  shows "stops gh w1 w3 err"
proof -
  from assms(1) obtain n1 where n1: "events w2 = events w1 @ n1" "clean gh n1"
    by (auto simp: stops_def)
  from assms(2) obtain n2 where n2: "events w3 = events w2 @ n2"
    and c: "clean gh n2 \<or> (\<exists>q e pre. n2 = pre @ [Request q] \<and> clean gh pre \<and>
              answer gh q = Some e \<and> err = Some e)"
    by (auto simp: stops_def)
  have ev: "events w3 = events w1 @ (n1 @ n2)" using n1 n2 by simp
  from c show ?thesis
  proof
    assume "clean gh n2"
    with n1 have "clean gh (n1 @ n2)" by (simp add: clean_append)
    with ev show ?thesis by (rule stops_clean)
  next
    assume "\<exists>q e pre. n2 = pre @ [Request q] \<and> clean gh pre \<and> answer gh q = Some e \<and> err = Some e"
    then obtain q e pre where p: "n2 = pre @ [Request q]" "clean gh pre" "answer gh q = Some e"
      "err = Some e" by blast
    have "n1 @ n2 = (n1 @ pre) @ [Request q]" using p(1) by simp
    moreover have "clean gh (n1 @ pre)" using n1 p(2) by (simp add: clean_append)
    ultimately show ?thesis unfolding stops_def using ev p(3,4) by blast
  qed
qed

lemma stops_info: "stops gh w (info gh' msg w) err"
  by (rule stops_clean [where new = "if warnings gh' then [Notice msg] else []"])
     (auto simp: info_def clean_def)

lemma stops_request_ok:
  "events w' = events w @ [Request q] \<Longrightarrow> answer gh q = None \<Longrightarrow> stops gh w w' err"
  by (rule stops_clean) (auto simp: clean_def)

lemma stops_request_fails:
  "events w' = events w @ [Request q] \<Longrightarrow> answer gh q = Some e \<Longrightarrow> stops gh w w' (Some e)"
  unfolding stops_def by (rule exI [of _ "[Request q]"]) (auto simp: clean_def)

lemma stops_get_repo:
  "get_repo gh origin w = Inl (e, w') \<Longrightarrow> stops gh w w' (Some e)"
  "get_repo gh origin w = Inr w' \<Longrightarrow> stops gh w w' None"
proof -
  show "get_repo gh origin w = Inl (e, w') \<Longrightarrow> stops gh w w' (Some e)"
    by (rule stops_request_fails [where q = "GetRepo origin"])
       (auto simp: get_repo_def Let_def split: option.splits)
  show "get_repo gh origin w = Inr w' \<Longrightarrow> stops gh w w' None"
    by (rule stops_request_ok [where q = "GetRepo origin"])
       (auto simp: get_repo_def Let_def split: option.splits)
qed

lemma stops_get_contents:
  "get_contents gh origin p r w = Inl (e, w') \<Longrightarrow> stops gh w w' (Some e)"
  "get_contents gh origin p r w = Inr (x, w') \<Longrightarrow> stops gh w w' None"
proof -
  show "get_contents gh origin p r w = Inl (e, w') \<Longrightarrow> stops gh w w' (Some e)"
    by (rule stops_request_fails [where q = "GetContents origin p r"])
       (auto simp: get_contents_def Let_def split: sum.splits)
  show "get_contents gh origin p r w = Inr (x, w') \<Longrightarrow> stops gh w w' None"
    by (rule stops_request_ok [where q = "GetContents origin p r"])
       (auto simp: get_contents_def Let_def split: sum.splits)
qed

lemma stops_get_repo_content:
  "get_repo_content gh origin p r w = Inl (e, w') \<Longrightarrow> stops gh w w' (Some e)"
  "get_repo_content gh origin p r w = Inr (x, w') \<Longrightarrow> stops gh w w' None"
  by (auto simp: get_repo_content_def split: sum.splits)
     (blast intro: stops_trans stops_get_repo stops_get_contents)+

lemma stops_get_file_content:
  "get_file_content gh origin p r w = Inl (e, w') \<Longrightarrow> stops gh w w' (Some e)"
  "get_file_content gh origin p r w = Inr (x, w') \<Longrightarrow> stops gh w w' None"
  by (auto simp: get_file_content_def split: sum.splits response.splits)
     (blast intro: stops_trans stops_get_repo stops_get_contents stops_None_any)+

lemma stops_make_dir:
  "make_dir p w = Inl (e, w') \<Longrightarrow> stops gh w w' err"
  "make_dir p w = Inr w' \<Longrightarrow> stops gh w w' err"
  by (auto simp: make_dir_def Let_def clean_def split: sum.splits prod.splits
        intro!: stops_clean [where new = "[MkDir p]"])

lemma stops_write_file: "stops gh w (final (write_file p flag pl w)) err"
proof (cases "write_file p flag pl w")
  case (Inl r)
  obtain e w' where r: "r = (e, w')" by (cases r)
  with Inl have "events w' = events w"
    by (auto simp: write_file_def split: sum.splits if_splits payload.splits option.splits)
  then have "stops gh w w' err" by (intro stops_clean [where new = "[]"]) (simp_all add: clean_def)
  with Inl r show ?thesis by simp
next
  case (Inr w')
  then obtain x where "events w' = events w @ [WriteFile p x]"
    by (auto simp: write_file_def split: sum.splits if_splits payload.splits option.splits)
  then have "stops gh w w' err" by (rule stops_clean) (simp add: clean_def)
  with Inr show ?thesis by simp
qed


lemma stops_walk:
  "stops gh w (final (process_content gh origin name d c w))
     (raised (process_content gh origin name d c w))"
  "stops gh w (final (process_all gh origin name d cs w))
     (raised (process_all gh origin name d cs w))"
proof (induction gh origin name d c w and gh origin name d cs w
       rule: process_content_process_all.induct)
  case (1 gh origin name c w)
  show ?case by (simp add: stops_refl)
next
  case (2 gh origin name depth c w)
  let ?p = "Path name @ Path (cpath c)"
  show ?case
  proof (cases "ctype c = ''dir''")
    case True
    define w0 where "w0 = info gh (''Processing directory: '' @ cpath c) w"
    have i: "stops gh w w0 None" unfolding w0_def by (rule stops_info)
    have unf: "process_content gh origin name (Suc depth) c w =
        (case make_dir ?p w0 of
           Inl r \<Rightarrow> Inl r
         | Inr w1 \<Rightarrow>
             (case get_repo_content gh origin (cpath c) None w1 of
                Inl r \<Rightarrow> Inl r
              | Inr (sub_contents, w2) \<Rightarrow>
                  (case sub_contents of
                     Listing cs \<Rightarrow> process_all gh origin name depth cs w2
                   | SingleFile _ \<Rightarrow> Inl (TypeError, w2))))"
      using True by (simp add: w0_def)
    show ?thesis
    proof (cases "make_dir ?p w0")
      case (Inl r)
      obtain e w1 where r: "r = (e, w1)" by (cases r)
      have "stops gh w w1 (Some e)"
        using stops_trans [OF i stops_make_dir(1)] Inl r by blast
      with unf Inl r show ?thesis by simp
    next
      case (Inr w1)
      have a1: "stops gh w w1 None"
        using stops_trans [OF i stops_make_dir(2)] Inr by blast
      show ?thesis
      proof (cases "get_repo_content gh origin (cpath c) None w1")
        case (Inl r)
        obtain e w2 where r: "r = (e, w2)" by (cases r)
        have "stops gh w w2 (Some e)"
          using stops_trans [OF a1 stops_get_repo_content(1)] Inl r by blast
        with unf \<open>make_dir ?p w0 = Inr w1\<close> Inl r show ?thesis by simp
      next
        case (Inr r)
        obtain sub w2 where r: "r = (sub, w2)" by (cases r)
        have a2: "stops gh w w2 None"
          using stops_trans [OF a1 stops_get_repo_content(2)] Inr r by blast
        show ?thesis
        proof (cases sub)
          case (Listing cs)
          have "stops gh w2 (final (process_all gh origin name depth cs w2))
                  (raised (process_all gh origin name depth cs w2))"
            using "2.IH" [OF True _ Inr [unfolded r] refl Listing]
              \<open>make_dir ?p w0 = Inr w1\<close> by (simp add: w0_def)
          with a2 have "stops gh w (final (process_all gh origin name depth cs w2))
                  (raised (process_all gh origin name depth cs w2))"
            by (rule stops_trans)
          with unf \<open>make_dir ?p w0 = Inr w1\<close> Inr r Listing show ?thesis by simp
        next
          case (SingleFile x)
          from a2 have "stops gh w w2 (Some TypeError)" by (rule stops_None_any)
          with unf \<open>make_dir ?p w0 = Inr w1\<close> Inr r SingleFile show ?thesis by simp
        qed
      qed
    qed
  next
    case False
    note nd = False
    show ?thesis
    proof (cases "ctype c = ''file''")
      case False
      with nd show ?thesis by (simp add: stops_refl)
    next
      case True
      define w0 where "w0 = info gh (''Processing file: '' @ cpath c) w"
      have i: "stops gh w w0 None" unfolding w0_def by (rule stops_info)
      have unf: "process_content gh origin name (Suc depth) c w =
          (case get_file_content gh origin (cpath c) None w0 of
             Inl r \<Rightarrow> Inl r
           | Inr ((file_content, flag), w1) \<Rightarrow> write_file ?p flag file_content w1)"
        using nd True by (simp add: w0_def)
      show ?thesis
      proof (cases "get_file_content gh origin (cpath c) None w0")
        case (Inl r)
        obtain e w1 where r: "r = (e, w1)" by (cases r)
        have "stops gh w w1 (Some e)"
          using stops_trans [OF i stops_get_file_content(1)] Inl r by blast
        with unf Inl r show ?thesis by simp
      next
        case (Inr r)
        obtain pl flag w1 where r: "r = ((pl, flag), w1)" by (cases r) auto
        have "stops gh w w1 None"
          using stops_trans [OF i stops_get_file_content(2)] Inr r by blast
        then have "stops gh w (final (write_file ?p flag pl w1)) (raised (write_file ?p flag pl w1))"
          using stops_write_file by (rule stops_trans)
        with unf Inr r show ?thesis by simp
      qed
    qed
  qed
next
  case (3 gh origin name depth w)
  show ?case by (simp add: stops_refl)
next
  case (4 gh origin name depth c cs w)
  show ?case
  proof (cases "process_content gh origin name depth c w")
    case (Inl r)
    obtain e w1 where "r = (e, w1)" by (cases r)
    with Inl "4.IH"(1) show ?thesis by simp
  next
    case (Inr w1)
    with "4.IH"(1) have "stops gh w w1 None" by simp
    then have "stops gh w (final (process_all gh origin name depth cs w1))
                 (raised (process_all gh origin name depth cs w1))"
      using "4.IH"(2) [OF Inr] by (rule stops_trans)
    with Inr show ?thesis by simp
  qed
qed

subsection \<open>What a whole \<^verbatim>\<open>clone_repo\<close> call keeps and where it stops\<close>

lemma keeps_events_only:
  "fs w' = fs w \<Longrightarrow> events w' = events w @ pre \<Longrightarrow> \<forall>p pl. WriteFile p pl \<notin> set pre
     \<Longrightarrow> keeps w w'"
  by (simp add: keeps_def new_events_def last_write_None)

lemma advance_keeps:
  assumes "advance w2 w'" "fs w2 = fs w" "events w2 = events w @ pre"
    "\<forall>p pl. WriteFile p pl \<notin> set pre"
  shows "keeps w w'"
proof -
  from assms(1) obtain new where new: "events w' = events w2 @ new"
    and f: "\<And>p n. fs w2 p = Some n \<Longrightarrow>
           fs w' p = Some n \<or>
           (\<exists>x y pl. n = File x \<and> fs w' p = Some (File y) \<and> WriteFile p pl \<in> set new)"
    and e: "\<And>p pl. WriteFile p pl \<in> set new \<Longrightarrow> \<exists>bs. fs w' p = Some (File bs)"
    and c: "\<And>p pl. last_write p new = Some pl \<Longrightarrow> fs w' p = Some (File (payload_bytes pl))"
    unfolding advance_def by blast
  have ne: "new_events w w' = pre @ new"
    using new assms(3) by (simp add: new_events_def)
  have lw: "last_write p (pre @ new) = last_write p new" for p
    using assms(4) by (simp add: last_write_append last_write_None split: option.splits)
  have 1: "\<forall>p n. fs w p = Some n \<longrightarrow>
        fs w' p = Some n \<or>
        (\<exists>x y pl. n = File x \<and> fs w' p = Some (File y) \<and> WriteFile p pl \<in> set (pre @ new))"
    using f assms(2) by (auto; blast)
  have 2: "\<forall>p pl. WriteFile p pl \<in> set (pre @ new) \<longrightarrow> (\<exists>bs. fs w' p = Some (File bs))"
    using e assms(4) by auto
  have 3: "\<forall>p pl. last_write p (pre @ new) = Some pl \<longrightarrow>
        fs w' p = Some (File (payload_bytes pl))"
    using c by (simp add: lw)
  show ?thesis unfolding keeps_def ne using 1 2 3 by blast
qed

lemma keeps_preserved: "keeps w w' \<Longrightarrow> preserved (fs w) (fs w')"
  by (fastforce simp: keeps_def preserved_def)

lemma clone_repo_keeps: "keeps w (final (clone_repo gh u n ro ref ov w))"
proof (cases "resolve_origin u n ro")
  case (Inl e)
  then show ?thesis
    by (simp add: clone_repo_unresolved keeps_events_only [where pre = "[]"])
next
  case (Inr x)
  obtain origin nm where x: "x = (origin, nm)" by (cases x)
  note res = Inr [unfolded x]
  show ?thesis
  proof (cases "remote_repo gh origin")
    case (Some e)
    show ?thesis
      unfolding clone_repo_lookup_fails [OF res Some]
      by (simp add: keeps_events_only [where pre = "[Request (GetRepo origin)]"])
  next
    case None
    show ?thesis
    proof (cases "remote_contents gh origin [] ref")
      case (Inl e)
      show ?thesis
        unfolding clone_repo_listing_fails [OF res None Inl]
        by (simp add: keeps_events_only
              [where pre = "[Request (GetRepo origin), Request (GetContents origin [] ref)]"])
    next
      case (Inr contents)
      show ?thesis
        by (rule advance_keeps [OF clone_repo_after_listing [OF res None Inr],
              where pre = "[Request (GetRepo origin), Request (GetContents origin [] ref)]"])
           simp_all
    qed
  qed
qed

lemma clone_repo_stops:
  "stops gh w (final (clone_repo gh u n ro ref ov w)) (raised (clone_repo gh u n ro ref ov w))"
proof (cases "resolve_origin u n ro")
  case (Inl e)
  then show ?thesis by (simp add: clone_repo_unresolved stops_refl)
next
  case (Inr x)
  obtain origin nm where x: "x = (origin, nm)" by (cases x)
  note res = Inr [unfolded x]
  define w1 where "w1 = w\<lparr>events := events w @ [Request (GetRepo origin)]\<rparr>"
  define w2 where "w2 = w\<lparr>events := events w @ [Request (GetRepo origin),
                                            Request (GetContents origin [] ref)]\<rparr>"
  show ?thesis
  proof (cases "remote_repo gh origin")
    case (Some e)
    have "stops gh w w1 (Some e)"
      by (rule stops_request_fails [where q = "GetRepo origin"]) (simp_all add: w1_def Some)
    then show ?thesis
      unfolding clone_repo_lookup_fails [OF res Some] by (simp add: w1_def)
  next
    case None
    have s1: "stops gh w w1 None"
      by (rule stops_request_ok [where q = "GetRepo origin"]) (simp_all add: w1_def None)
    show ?thesis
    proof (cases "remote_contents gh origin [] ref")
      case (Inl e)
      have "stops gh w1 w2 (Some e)"
        by (rule stops_request_fails [where q = "GetContents origin [] ref"])
           (simp_all add: w1_def w2_def Inl)
      with s1 have "stops gh w w2 (Some e)" by (rule stops_trans)
      then show ?thesis
        unfolding clone_repo_listing_fails [OF res None Inl] by (simp add: w2_def)
    next
      case (Inr contents)
      have "stops gh w1 w2 None"
        by (rule stops_request_ok [where q = "GetContents origin [] ref"])
           (simp_all add: w1_def w2_def Inr)
      with s1 have s2: "stops gh w w2 None" by (rule stops_trans)
      show ?thesis
      proof (cases nm)
        case nn: None
        have "clone_repo gh u n ro ref ov w = Inl (TypeError, w2)"
          using res None Inr nn by (simp add: clone_repo_def get_repo_def get_contents_def w2_def)
        with s2 show ?thesis by (simp add: stops_None_any)
      next
        case (Some name)
        define w2' where "w2' = (if exists_path (fs w) (Path name)
                then info gh (''Repository '' @ name @ '' already exists. Overwriting objects.'') w2
                else w2)"
        have s2': "stops gh w w2' None"
          using s2 stops_trans [OF s2 stops_info] by (simp add: w2'_def)
        show ?thesis
        proof (cases "exists_path (fs w) (Path name) \<and> \<not> ov")
          case True
          have "clone_repo gh u n ro ref ov w
                 = Inr (info gh (''Repository '' @ name
                      @ '' already exists. Skipping clone. (Set overwrite=True to force clone)'') w2)"
            using res None Inr Some True
            by (simp add: clone_repo_def get_repo_def get_contents_def w2_def)
          with stops_trans [OF s2 stops_info] show ?thesis by simp
        next
          case False
          have r: "clone_repo gh u n ro ref ov w =
              (case make_dir (Path name) w2' of
                 Inl r \<Rightarrow> Inl r
               | Inr w3 \<Rightarrow>
                   (case contents of
                      Listing cs \<Rightarrow>
                        process_all gh origin name (recursion_limit gh) cs
                          (info gh (''Processing repository: '' @ name) w3)
                    | SingleFile _ \<Rightarrow>
                        Inl (TypeError, info gh (''Processing repository: '' @ name) w3)))"
            using res None Inr Some False
            by (cases "exists_path (fs w) (Path name)")
               (simp_all add: clone_repo_def get_repo_def get_contents_def w2_def w2'_def)
          show ?thesis
          proof (cases "make_dir (Path name) w2'")
            case (Inl q)
            obtain e w3 where q: "q = (e, w3)" by (cases q)
            from stops_trans [OF s2' stops_make_dir(1)] Inl q have "stops gh w w3 (Some e)" by blast
            with r Inl q show ?thesis by simp
          next
            case md: (Inr w3)
            define w4 where "w4 = info gh (''Processing repository: '' @ name) w3"
            from stops_trans [OF s2' stops_make_dir(2)] md have "stops gh w w3 None" by blast
            then have s4: "stops gh w w4 None"
              unfolding w4_def using stops_info by (rule stops_trans)
            show ?thesis
            proof (cases contents)
              case (Listing cs)
              from stops_trans [OF s4 stops_walk(2)] r md Listing show ?thesis
                by (simp add: w4_def)
            next
              case (SingleFile x)
              from stops_None_any [OF s4] r md SingleFile show ?thesis by (simp add: w4_def)
            qed
          qed
        qed
      qed
    qed
  qed
qed

lemma process_all_aborts:
  "process_all gh origin name d cs1 v = Inr v1 \<Longrightarrow>
   process_content gh origin name d c v1 = Inl (e, v2) \<Longrightarrow>
     process_all gh origin name d (cs1 @ c # cs2) v = Inl (e, v2)"
  by (induction cs1 arbitrary: v) (auto split: sum.splits)

lemma stops_failed_request:
  assumes "stops gh w w' err" "Request q \<in> set (new_events w w')" "answer gh q = Some e"
  shows "err = Some e \<and> last (new_events w w') = Request q"
proof -
  from assms(1) obtain new where new: "events w' = events w @ new"
    and c: "clean gh new \<or> (\<exists>q e pre. new = pre @ [Request q] \<and> clean gh pre \<and>
              answer gh q = Some e \<and> err = Some e)"
    by (auto simp: stops_def)
  have ne: "new_events w w' = new" using new by (rule new_events_append)
  from assms(2,3) ne have "\<not> clean gh new" by (auto simp: clean_def)
  with c obtain q' e' pre where p: "new = pre @ [Request q']" "clean gh pre"
    "answer gh q' = Some e'" "err = Some e'" by blast
  from assms(2,3) ne p(1,2) have "q = q'" by (auto simp: clean_def)
  with p assms(3) ne show ?thesis by simp
qed

subsection \<open>The walk stops at the first directory that cannot be created\<close>

lemma makes_quiet:
  "fs w' = fs w \<Longrightarrow> events w' = events w @ new \<Longrightarrow> \<forall>p. MkDir p \<notin> set new
     \<Longrightarrow> makes w w' err"
  unfolding makes_def by (rule exI [of _ new]) auto

lemma makes_refl: "makes w w err"
  unfolding makes_def by (rule exI [of _ "[]"]) simp

lemma makes_None_any: "makes w w' None \<Longrightarrow> makes w w' err"
  by (auto simp: makes_def)

lemma makes_trans:
  assumes "makes w1 w2 None" "makes w2 w3 err"
  shows "makes w1 w3 err"
proof -
  from assms(1) obtain n1 where n1: "events w2 = events w1 @ n1"
    and d1: "\<And>p. fs w1 p = Some Dir \<Longrightarrow> fs w2 p = Some Dir"
    and m1: "\<And>pre p post. n1 = pre @ MkDir p # post \<Longrightarrow> node_at (fs w2) p = Some Dir"
    unfolding makes_def by blast
  from assms(2) obtain n2 where n2: "events w3 = events w2 @ n2"
    and d2: "\<And>p. fs w2 p = Some Dir \<Longrightarrow> fs w3 p = Some Dir"
    and m2: "\<And>pre p post. n2 = pre @ MkDir p # post \<Longrightarrow>
           node_at (fs w3) p = Some Dir \<or>
           (post = [] \<and> (\<exists>e f. mkdir p f = Inl (e, fs w3) \<and> err = Some e))"
    unfolding makes_def by blast
  have nd: "node_at (fs w3) p = Some Dir" if "node_at (fs w2) p = Some Dir" for p
    using that d2 [of p] by (auto simp: node_at_def split: if_splits)
  have ev: "events w3 = events w1 @ (n1 @ n2)" using n1 n2 by simp
  have "node_at (fs w3) p = Some Dir \<or>
           (post = [] \<and> (\<exists>e f. mkdir p f = Inl (e, fs w3) \<and> err = Some e))"
    if s: "n1 @ n2 = pre @ MkDir p # post" for pre p post
  proof -
    from s consider t where "n1 = pre @ MkDir p # t" "post = t @ n2"
      | u where "pre = n1 @ u" "n2 = u @ MkDir p # post"
      by (auto simp: append_eq_append_conv2 append_eq_Cons_conv Cons_eq_append_conv)
    then show ?thesis
    proof cases
      case 1
      from nd [OF m1 [OF 1(1)]] show ?thesis ..
    next
      case 2
      from m2 [OF 2(2)] show ?thesis .
    qed
  qed
  with ev d1 d2 show ?thesis unfolding makes_def by blast
qed

lemma makes_info: "makes w (info gh msg w) err"
  by (rule makes_quiet [where new = "if warnings gh then [Notice msg] else []"])
     (auto simp: info_def)

lemma makes_get_repo:
  "get_repo gh origin w = Inl (e, w') \<Longrightarrow> makes w w' err"
  "get_repo gh origin w = Inr w' \<Longrightarrow> makes w w' err"
  by (auto simp: get_repo_def Let_def split: option.splits
        intro!: makes_quiet [where new = "[Request (GetRepo origin)]"])

lemma makes_get_contents:
  "get_contents gh origin p r w = Inl (e, w') \<Longrightarrow> makes w w' err"
  "get_contents gh origin p r w = Inr (x, w') \<Longrightarrow> makes w w' err"
  by (auto simp: get_contents_def Let_def split: sum.splits
        intro!: makes_quiet [where new = "[Request (GetContents origin p r)]"])

lemma makes_get_repo_content:
  "get_repo_content gh origin p r w = Inl (e, w') \<Longrightarrow> makes w w' (Some e)"
  "get_repo_content gh origin p r w = Inr (x, w') \<Longrightarrow> makes w w' None"
  by (auto simp: get_repo_content_def split: sum.splits)
     (blast intro: makes_trans makes_get_repo makes_get_contents)+

lemma makes_get_file_content:
  "get_file_content gh origin p r w = Inl (e, w') \<Longrightarrow> makes w w' (Some e)"
  "get_file_content gh origin p r w = Inr (x, w') \<Longrightarrow> makes w w' None"
  by (auto simp: get_file_content_def split: sum.splits response.splits)
     (blast intro: makes_trans makes_get_repo makes_get_contents)+

lemma makes_make_dir:
  "make_dir p w = Inl (e, w') \<Longrightarrow> makes w w' (Some e)"
  "make_dir p w = Inr w' \<Longrightarrow> makes w w' None"
proof -
  assume a: "make_dir p w = Inl (e, w')"
  then have m: "mkdir p (fs w) = Inl (e, fs w')" and ev: "events w' = events w @ [MkDir p]"
    by (auto simp: make_dir_def Let_def split: sum.splits prod.splits)
  from mkdir_grows [of p "fs w" e "fs w'"] m
  have g: "\<forall>q. fs w q = Some Dir \<longrightarrow> fs w' q = Some Dir" by blast
  show "makes w w' (Some e)"
    unfolding makes_def
    by (rule exI [of _ "[MkDir p]"]) (use ev g m in \<open>auto simp: append_eq_Cons_conv Cons_eq_append_conv\<close>)
next
  assume a: "make_dir p w = Inr w'"
  then have m: "mkdir p (fs w) = Inr (fs w')" and ev: "events w' = events w @ [MkDir p]"
    by (auto simp: make_dir_def Let_def split: sum.splits prod.splits)
  from mkdir_grows [of p "fs w" _ "fs w'"] m
  have g: "\<forall>q. fs w q = Some Dir \<longrightarrow> fs w' q = Some Dir" by blast
  from mkdir_Inr_dir [OF m] have d: "node_at (fs w') p = Some Dir" .
  show "makes w w' None"
    unfolding makes_def
    by (rule exI [of _ "[MkDir p]"]) (use ev g d in \<open>auto simp: append_eq_Cons_conv Cons_eq_append_conv\<close>)
qed

lemma makes_write_file: "makes w (final (write_file p flag pl w)) err"
proof -
  have "\<exists>new. events (final (write_file p flag pl w)) = events w @ new \<and>
          (\<forall>q. MkDir q \<notin> set new)"
    by (auto simp: write_file_def split: sum.splits if_splits payload.splits option.splits)
  then obtain new where n: "events (final (write_file p flag pl w)) = events w @ new"
    "\<forall>q. MkDir q \<notin> set new" by blast
  have d: "\<forall>q. fs w q = Some Dir \<longrightarrow> fs (final (write_file p flag pl w)) q = Some Dir"
    by (auto simp: write_file_def split: sum.splits if_splits payload.splits option.splits
          dest!: open_w_Inr)
  show ?thesis
    unfolding makes_def by (rule exI [of _ new]) (use n d in auto)
qed

lemma makes_walk:
  "makes w (final (process_content gh origin name d c w))
     (raised (process_content gh origin name d c w))"
  "makes w (final (process_all gh origin name d cs w))
     (raised (process_all gh origin name d cs w))"
proof (induction gh origin name d c w and gh origin name d cs w
       rule: process_content_process_all.induct)
  case (1 gh origin name c w)
  show ?case by (simp add: makes_refl)
next
  case (2 gh origin name depth c w)
  let ?p = "Path name @ Path (cpath c)"
  show ?case
  proof (cases "ctype c = ''dir''")
    case True
    define w0 where "w0 = info gh (''Processing directory: '' @ cpath c) w"
    have i: "makes w w0 None" unfolding w0_def by (rule makes_info)
    have unf: "process_content gh origin name (Suc depth) c w =
        (case make_dir ?p w0 of
           Inl r \<Rightarrow> Inl r
         | Inr w1 \<Rightarrow>
             (case get_repo_content gh origin (cpath c) None w1 of
                Inl r \<Rightarrow> Inl r
              | Inr (sub_contents, w2) \<Rightarrow>
                  (case sub_contents of
                     Listing cs \<Rightarrow> process_all gh origin name depth cs w2
                   | SingleFile _ \<Rightarrow> Inl (TypeError, w2))))"
      using True by (simp add: w0_def)
    show ?thesis
    proof (cases "make_dir ?p w0")
      case (Inl r)
      obtain e w1 where r: "r = (e, w1)" by (cases r)
      have "makes w w1 (Some e)"
        using makes_trans [OF i makes_make_dir(1)] Inl r by blast
      with unf Inl r show ?thesis by simp
    next
      case (Inr w1)
      have a1: "makes w w1 None"
        using makes_trans [OF i makes_make_dir(2)] Inr by blast
      show ?thesis
      proof (cases "get_repo_content gh origin (cpath c) None w1")
        case (Inl r)
        obtain e w2 where r: "r = (e, w2)" by (cases r)
        have "makes w w2 (Some e)"
          using makes_trans [OF a1 makes_get_repo_content(1)] Inl r by blast
        with unf \<open>make_dir ?p w0 = Inr w1\<close> Inl r show ?thesis by simp
      next
        case (Inr r)
        obtain sub w2 where r: "r = (sub, w2)" by (cases r)
        have a2: "makes w w2 None"
          using makes_trans [OF a1 makes_get_repo_content(2)] Inr r by blast
        show ?thesis
        proof (cases sub)
          case (Listing cs)
          have "makes w2 (final (process_all gh origin name depth cs w2))
                  (raised (process_all gh origin name depth cs w2))"
            using "2.IH" [OF True _ Inr [unfolded r] refl Listing]
              \<open>make_dir ?p w0 = Inr w1\<close> by (simp add: w0_def)
          with a2 have "makes w (final (process_all gh origin name depth cs w2))
                  (raised (process_all gh origin name depth cs w2))"
            by (rule makes_trans)
          with unf \<open>make_dir ?p w0 = Inr w1\<close> Inr r Listing show ?thesis by simp
        next
          case (SingleFile x)
          from a2 have "makes w w2 (Some TypeError)" by (rule makes_None_any)
          with unf \<open>make_dir ?p w0 = Inr w1\<close> Inr r SingleFile show ?thesis by simp
        qed
      qed
    qed
  next
    case False
    note nd = False
    show ?thesis
    proof (cases "ctype c = ''file''")
      case False
      with nd show ?thesis by (simp add: makes_refl)
    next
      case True
      define w0 where "w0 = info gh (''Processing file: '' @ cpath c) w"
      have i: "makes w w0 None" unfolding w0_def by (rule makes_info)
      have unf: "process_content gh origin name (Suc depth) c w =
          (case get_file_content gh origin (cpath c) None w0 of
             Inl r \<Rightarrow> Inl r
           | Inr ((file_content, flag), w1) \<Rightarrow> write_file ?p flag file_content w1)"
        using nd True by (simp add: w0_def)
      show ?thesis
      proof (cases "get_file_content gh origin (cpath c) None w0")
        case (Inl r)
        obtain e w1 where r: "r = (e, w1)" by (cases r)
        have "makes w w1 (Some e)"
          using makes_trans [OF i makes_get_file_content(1)] Inl r by blast
        with unf Inl r show ?thesis by simp
      next
        case (Inr r)
        obtain pl flag w1 where r: "r = ((pl, flag), w1)" by (cases r) auto
        have "makes w w1 None"
          using makes_trans [OF i makes_get_file_content(2)] Inr r by blast
        then have "makes w (final (write_file ?p flag pl w1)) (raised (write_file ?p flag pl w1))"
          using makes_write_file by (rule makes_trans)
        with unf Inr r show ?thesis by simp
      qed
    qed
  qed
next
  case (3 gh origin name depth w)
  show ?case by (simp add: makes_refl)
next
  case (4 gh origin name depth c cs w)
  show ?case
  proof (cases "process_content gh origin name depth c w")
    case (Inl r)
    obtain e w1 where "r = (e, w1)" by (cases r)
    with Inl "4.IH"(1) show ?thesis by simp
  next
    case (Inr w1)
    with "4.IH"(1) have "makes w w1 None" by simp
    then have "makes w (final (process_all gh origin name depth cs w1))
                 (raised (process_all gh origin name depth cs w1))"
      using "4.IH"(2) [OF Inr] by (rule makes_trans)
    with Inr show ?thesis by simp
  qed
qed


lemma clone_repo_makes:
  "makes w (final (clone_repo gh u n ro ref ov w)) (raised (clone_repo gh u n ro ref ov w))"
proof (cases "resolve_origin u n ro")
  case (Inl e)
  then show ?thesis by (simp add: clone_repo_unresolved makes_refl)
next
  case (Inr x)
  obtain origin nm where x: "x = (origin, nm)" by (cases x)
  note res = Inr [unfolded x]
  define w1 where "w1 = w\<lparr>events := events w @ [Request (GetRepo origin)]\<rparr>"
  define w2 where "w2 = w\<lparr>events := events w @ [Request (GetRepo origin),
                                            Request (GetContents origin [] ref)]\<rparr>"
  show ?thesis
  proof (cases "remote_repo gh origin")
    case (Some e)
    have "makes w w1 (Some e)"
      by (rule makes_quiet) (auto simp: w1_def Some)
    then show ?thesis
      unfolding clone_repo_lookup_fails [OF res Some] by (simp add: w1_def)
  next
    case None
    have s1: "makes w w1 None"
      by (rule makes_quiet) (auto simp: w1_def None)
    show ?thesis
    proof (cases "remote_contents gh origin [] ref")
      case (Inl e)
      have "makes w1 w2 (Some e)"
        by (rule makes_quiet) (auto simp: w1_def w2_def Inl)
      with s1 have "makes w w2 (Some e)" by (rule makes_trans)
      then show ?thesis
        unfolding clone_repo_listing_fails [OF res None Inl] by (simp add: w2_def)
    next
      case (Inr contents)
      have "makes w1 w2 None"
        by (rule makes_quiet) (auto simp: w1_def w2_def Inr)
      with s1 have s2: "makes w w2 None" by (rule makes_trans)
      show ?thesis
      proof (cases nm)
        case nn: None
        have "clone_repo gh u n ro ref ov w = Inl (TypeError, w2)"
          using res None Inr nn by (simp add: clone_repo_def get_repo_def get_contents_def w2_def)
        with s2 show ?thesis by (simp add: makes_None_any)
      next
        case (Some name)
        define w2' where "w2' = (if exists_path (fs w) (Path name)
                then info gh (''Repository '' @ name @ '' already exists. Overwriting objects.'') w2
                else w2)"
        have s2': "makes w w2' None"
          using s2 makes_trans [OF s2 makes_info] by (simp add: w2'_def)
        show ?thesis
        proof (cases "exists_path (fs w) (Path name) \<and> \<not> ov")
          case True
          have "clone_repo gh u n ro ref ov w
                 = Inr (info gh (''Repository '' @ name
                      @ '' already exists. Skipping clone. (Set overwrite=True to force clone)'') w2)"
            using res None Inr Some True
            by (simp add: clone_repo_def get_repo_def get_contents_def w2_def)
          with makes_trans [OF s2 makes_info] show ?thesis by simp
        next
          case False
          have r: "clone_repo gh u n ro ref ov w =
              (case make_dir (Path name) w2' of
                 Inl r \<Rightarrow> Inl r
               | Inr w3 \<Rightarrow>
                   (case contents of
                      Listing cs \<Rightarrow>
                        process_all gh origin name (recursion_limit gh) cs
                          (info gh (''Processing repository: '' @ name) w3)
                    | SingleFile _ \<Rightarrow>
                        Inl (TypeError, info gh (''Processing repository: '' @ name) w3)))"
            using res None Inr Some False
            by (cases "exists_path (fs w) (Path name)")
               (simp_all add: clone_repo_def get_repo_def get_contents_def w2_def w2'_def)
          show ?thesis
          proof (cases "make_dir (Path name) w2'")
            case (Inl q)
            obtain e w3 where q: "q = (e, w3)" by (cases q)
            from makes_trans [OF s2' makes_make_dir(1)] Inl q have "makes w w3 (Some e)" by blast
            with r Inl q show ?thesis by simp
          next
            case md: (Inr w3)
            define w4 where "w4 = info gh (''Processing repository: '' @ name) w3"
            from makes_trans [OF s2' makes_make_dir(2)] md have "makes w w3 None" by blast
            then have s4: "makes w w4 None"
              unfolding w4_def using makes_info by (rule makes_trans)
            show ?thesis
            proof (cases contents)
              case (Listing cs)
              from makes_trans [OF s4 makes_walk(2)] r md Listing show ?thesis
                by (simp add: w4_def)
            next
              case (SingleFile x)
              from makes_None_any [OF s4] r md SingleFile show ?thesis by (simp add: w4_def)
            qed
          qed
        qed
      qed
    qed
  qed
qed


lemma makes_failed_mkdir:
  assumes "makes w w' err" "new_events w w' = pre @ MkDir p # post"
    "node_at (fs w') p \<noteq> Some Dir"
  shows "post = [] \<and> (\<exists>e f. mkdir p f = Inl (e, fs w') \<and> err = Some e)"
proof -
  from assms(1) obtain new where new: "events w' = events w @ new"
    and m: "\<And>pre p post. new = pre @ MkDir p # post \<Longrightarrow>
           node_at (fs w') p = Some Dir \<or>
           (post = [] \<and> (\<exists>e f. mkdir p f = Inl (e, fs w') \<and> err = Some e))"
    unfolding makes_def by blast
  have "new_events w w' = new" using new by (rule new_events_append)
  with assms(2) have "new = pre @ MkDir p # post" by simp
  from m [OF this] assms(3) show ?thesis by blast
qed

subsection \<open>A clone of a served tree\<close>


text \<open>A destination that is absent, with nothing below it, is compatible with any tree.\<close>

lemma compat_fresh: "(\<And>p. prefix (base @ [rname n]) p \<Longrightarrow> fsys p = None) \<Longrightarrow> compat fsys base n"
proof (induction n arbitrary: base)
  case (RFile nm bs)
  from RFile [of "base @ [nm]"] show ?case by simp
next
  case (RDir nm sub)
  have here: "fsys (base @ [nm]) = None" using RDir.prems [of "base @ [nm]"] by simp
  have "compat fsys (base @ [nm]) m" if m: "m \<in> set sub" for m
  proof (rule RDir.IH [OF m])
    fix p assume "prefix ((base @ [nm]) @ [rname m]) p"
    then have "prefix (base @ [nm]) p" by (rule append_prefixD)
    then show "fsys p = None" using RDir.prems by simp
  qed
  with here show ?case by simp
next
  case (ROther kind nm)
  show ?case by simp
qed

subsection \<open>Evaluation on the small repository\<close>

lemmas clone_eval =
  clone_repo_def resolve_origin_def get_repo_def get_contents_def get_repo_content_def
  get_file_content_def make_dir_def write_file_def open_w_def os_mkdir_def mkdir.simps
  info_def exists_path_def node_at_def Path_def Let_def decode_content_def b64decode_def
  table_a2b_base64_def encode_code_point_def new_events_def

lemma demo_resolve: "resolve_origin None None (Some ''u/r'') = Inr (''u/r'', Some ''r'')"
  by (simp add: resolve_origin_def)

lemma demo_skip_events:
  "new_events populated_world
     (final (clone_repo demo None None (Some ''u/r'') None False populated_world))
   = [Request (GetRepo ''u/r''), Request (GetContents ''u/r'' [] None),
      Notice ''Repository r already exists. Skipping clone. (Set overwrite=True to force clone)'']"
  by (simp add: clone_eval demo_def demo_contents_def populated_world_def)

lemma demo_dev_events:
  "new_events empty_world
     (final (clone_repo demo None None (Some ''u/r'') (Some ''dev'') False empty_world))
   = [Request (GetRepo ''u/r''), Request (GetContents ''u/r'' [] (Some ''dev'')),
   MkDir [''r''], Notice ''Processing repository: r'',
   Notice ''Processing file: a.txt'', Request (GetRepo ''u/r''),
   Request (GetContents ''u/r'' ''a.txt'' None),
   WriteFile [''r'', ''a.txt''] (Text [104, 105]),
   Notice ''Processing directory: b'', MkDir [''r'', ''b''],
   Request (GetRepo ''u/r''), Request (GetContents ''u/r'' ''b'' None),
   Notice ''Processing file: b/c.bin'', Request (GetRepo ''u/r''),
   Request (GetContents ''u/r'' ''b/c.bin'' None),
   WriteFile [''r'', ''b'', ''c.bin''] (Binary [255, 254])]"
  by (simp add: clone_eval demo_def demo_contents_def empty_world_def)


lemma clone_repo_Inr_exists:
  assumes "clone_repo gh u n ro ref ov w = Inr w1"
  shows "\<exists>origin name contents.
           resolve_origin u n ro = Inr (origin, Some name) \<and> remote_repo gh origin = None \<and>
           remote_contents gh origin [] ref = Inr contents \<and> exists_path (fs w1) (Path name)"
proof -
  from assms obtain origin nm where res: "resolve_origin u n ro = Inr (origin, nm)"
    by (cases "resolve_origin u n ro") (auto simp: clone_repo_def)
  from assms res have rr: "remote_repo gh origin = None"
    by (cases "remote_repo gh origin") (auto simp: clone_repo_def get_repo_def)
  from assms res rr obtain contents where rc: "remote_contents gh origin [] ref = Inr contents"
    by (cases "remote_contents gh origin [] ref")
       (auto simp: clone_repo_def get_repo_def get_contents_def)
  from assms res rr rc obtain name where nm: "nm = Some name"
    by (cases nm) (auto simp: clone_repo_def get_repo_def get_contents_def)
  let ?w2 = "w\<lparr>events := events w @ [Request (GetRepo origin),
                                            Request (GetContents origin [] ref)]\<rparr>"
  let ?w2' = "if exists_path (fs w) (Path name)
              then info gh (''Repository '' @ name @ '' already exists. Overwriting objects.'') ?w2
              else ?w2"
  have "exists_path (fs w1) (Path name)"
  proof (cases "exists_path (fs w) (Path name) \<and> \<not> ov")
    case True
    with assms res rr rc nm show ?thesis
      by (auto simp: clone_repo_def get_repo_def get_contents_def info_def)
  next
    case False
    have r: "clone_repo gh u n ro ref ov w =
        (case make_dir (Path name) ?w2' of
           Inl r \<Rightarrow> Inl r
         | Inr w3 \<Rightarrow>
             (case contents of
                Listing cs \<Rightarrow>
                  process_all gh origin name (recursion_limit gh) cs
                    (info gh (''Processing repository: '' @ name) w3)
              | SingleFile _ \<Rightarrow>
                  Inl (TypeError, info gh (''Processing repository: '' @ name) w3)))"
      using res rr rc nm False
      by (cases "exists_path (fs w) (Path name)")
         (simp_all add: clone_repo_def get_repo_def get_contents_def)
    from assms r obtain w3 where md: "make_dir (Path name) ?w2' = Inr w3"
      by (cases "make_dir (Path name) ?w2'") auto
    let ?w4 = "info gh (''Processing repository: '' @ name) w3"
    from assms r md obtain cs where cs: "contents = Listing cs"
      and pa: "process_all gh origin name (recursion_limit gh) cs ?w4 = Inr w1"
      by (cases contents) auto
    have "exists_path (fs w3) (Path name)"
      using make_dir_Inr_dir [OF md] by (simp add: exists_path_def)
    then have "exists_path (fs ?w4) (Path name)"
      by (rule advance_exists [OF advance_info])
    moreover have "advance ?w4 w1"
      using advance_walk(2) [of ?w4 gh origin name "recursion_limit gh" cs] pa by simp
    ultimately show ?thesis by (rule advance_exists [rotated])
  qed
  with res rr rc nm show ?thesis by blast
qed








lemma flaky_events:
  "new_events empty_world
     (final (clone_repo flaky None None (Some ''u/r'') None False empty_world))
   = [Request (GetRepo ''u/r''), Request (GetContents ''u/r'' [] None),
   MkDir [''r''], Notice ''Processing repository: r'',
   Notice ''Processing file: a.txt'', Request (GetRepo ''u/r''),
   Request (GetContents ''u/r'' ''a.txt'' None),
   WriteFile [''r'', ''a.txt''] (Text [104, 105]),
   Notice ''Processing directory: b'', MkDir [''r'', ''b''],
   Request (GetRepo ''u/r''), Request (GetContents ''u/r'' ''b'' None),
   Notice ''Processing file: b/c.bin'', Request (GetRepo ''u/r''),
   Request (GetContents ''u/r'' ''b/c.bin'' None)]"
  by (simp add: clone_eval flaky_def flaky_contents_def demo_def demo_contents_def empty_world_def)

lemma flaky_raised:
  "raised (clone_repo flaky None None (Some ''u/r'') None False empty_world) = Some ConnectionError"
  by (simp add: clone_eval flaky_def flaky_contents_def demo_def demo_contents_def empty_world_def)

lemma flaky_file:
  "fs (final (clone_repo flaky None None (Some ''u/r'') None False empty_world)) [''r'', ''a.txt'']
     = Some (File [104, 105])"
  by (simp add: clone_eval flaky_def flaky_contents_def demo_def demo_contents_def empty_world_def)

lemma overwrite_old_file:
  "fs (final (clone_repo demo None None (Some ''u/r'') None True populated_world)) [''r'', ''old.txt'']
     = Some (File [111])"
  by (simp add: clone_eval demo_def demo_contents_def populated_world_def)

lemma blocked_raised:
  "raised (clone_repo demo None None (Some ''u/r'') None True blocked_world)
     = Some FileExistsError"
  by (simp add: clone_eval demo_def demo_contents_def blocked_world_def)

lemma blocked_last:
  "last (new_events blocked_world
           (final (clone_repo demo None None (Some ''u/r'') None True blocked_world)))
     = MkDir [''r'', ''b'']"
  by (simp add: clone_eval demo_def demo_contents_def blocked_world_def)

lemma blocked_file:
  "fs (final (clone_repo demo None None (Some ''u/r'') None True blocked_world))
     [''r'', ''a.txt''] = Some (File [104, 105])"
  by (simp add: clone_eval demo_def demo_contents_def blocked_world_def)

lemma payload_hi: "payload_bytes (Text [104, 105]) = [104, 105]"
  by (simp add: payload_bytes_def encode_code_point_def)

lemma blocked_events:
  "new_events blocked_world
     (final (clone_repo demo None None (Some ''u/r'') None True blocked_world))
   = [Request (GetRepo ''u/r''), Request (GetContents ''u/r'' [] None),
      Notice ''Repository r already exists. Overwriting objects.'',
      MkDir [''r''], Notice ''Processing repository: r'',
      Notice ''Processing file: a.txt'', Request (GetRepo ''u/r''),
      Request (GetContents ''u/r'' ''a.txt'' None),
      WriteFile [''r'', ''a.txt''] (Text [104, 105]),
      Notice ''Processing directory: b''] @ MkDir [''r'', ''b''] # []"
  by (simp add: clone_eval demo_def demo_contents_def blocked_world_def)

lemma blocked_node:
  "node_at (fs (final (clone_repo demo None None (Some ''u/r'') None True blocked_world)))
     [''r'', ''b''] \<noteq> Some Dir"
  by (simp add: clone_eval demo_def demo_contents_def blocked_world_def)
section \<open>Properties of the user aggregation\<close>

lemma index_repos_dom:
  "dom (fst (index_repos rs (i, p))) = dom i \<union> repo_name ` set rs \<and>
   dom (snd (index_repos rs (i, p))) = dom p \<union> repo_name ` set rs"
  by (induction rs arbitrary: i p) auto

lemma get_user_info_events:
  "get_user_info api username limit w = Inr (u, w') \<Longrightarrow>
     new_events w w' = [Request (GetUser username), Request (GetGists username),
                         Request (GetRepos username)]"
  by (auto simp: get_user_info_def Let_def new_events_def split: sum.splits)

section \<open>The claims about the clone\<close>

text \<open>
  C1, as amended: when the destination exists and \<open>overwrite\<close> is false, \<^verbatim>\<open>clone_repo\<close>
  first sends the repository lookup and then the request for the root listing, both of
  them before it checks the destination. If the remote refuses the lookup, the call
  raises that error after the one request; if it refuses the listing, the call raises
  that error after the two requests; in both cases there is no notice. If both are
  answered, the call emits the skip notice (when notices are on) and returns, with no
  further remote call. In every case it touches no file. In particular, after a call
  that has returned the destination exists, so a second call with the same arguments,
  whatever the remote answers by then, leaves the file system unchanged, and when its
  two requests are answered it makes exactly these two requests, emits the notice and
  returns.
\<close>

theorem clone_repo_skips_existing_destination:
  "(resolve_origin u n ro = Inr (origin, Some name) \<and> exists_path (fs w) (Path name) \<longrightarrow>
      fs (final (clone_repo gh u n ro ref False w)) = fs w \<and>
      filter is_fs_event (new_events w (final (clone_repo gh u n ro ref False w))) = [] \<and>
      clone_repo gh u n ro ref False w
        = (case remote_repo gh origin of
             Some e \<Rightarrow> Inl (e, w\<lparr>events := events w @ [Request (GetRepo origin)]\<rparr>)
           | None \<Rightarrow>
               (case remote_contents gh origin [] ref of
                  Inl e \<Rightarrow>
                    Inl (e, w\<lparr>events := events w @ [Request (GetRepo origin),
                                                       Request (GetContents origin [] ref)]\<rparr>)
                | Inr contents \<Rightarrow>
                    Inr (info gh (''Repository '' @ name
                           @ '' already exists. Skipping clone. (Set overwrite=True to force clone)'')
                          (w\<lparr>events := events w @ [Request (GetRepo origin),
                                                       Request (GetContents origin [] ref)]\<rparr>))))) \<and>
   (clone_repo gh u n ro ref False w = Inr w1 \<longrightarrow>
      (\<exists>origin name. resolve_origin u n ro = Inr (origin, Some name) \<and>
                     exists_path (fs w1) (Path name)) \<and>
      (\<forall>gh'. fs (final (clone_repo gh' u n ro ref False w1)) = fs w1 \<and>
             filter is_fs_event (new_events w1 (final (clone_repo gh' u n ro ref False w1))) = [] \<and>
             (\<forall>origin name contents.
                resolve_origin u n ro = Inr (origin, Some name) \<and>
                remote_repo gh' origin = None \<and>
                remote_contents gh' origin [] ref = Inr contents \<longrightarrow>
                clone_repo gh' u n ro ref False w1
                  = Inr (info gh' (''Repository '' @ name
                           @ '' already exists. Skipping clone. (Set overwrite=True to force clone)'')
                          (w1\<lparr>events := events w1 @ [Request (GetRepo origin),
                                                         Request (GetContents origin [] ref)]\<rparr>)))))"
proof -
  have skip: "fs (final (clone_repo g u n ro ref False v)) = fs v \<and>
      filter is_fs_event (new_events v (final (clone_repo g u n ro ref False v))) = [] \<and>
      clone_repo g u n ro ref False v
        = (case remote_repo g origin of
             Some e \<Rightarrow> Inl (e, v\<lparr>events := events v @ [Request (GetRepo origin)]\<rparr>)
           | None \<Rightarrow>
               (case remote_contents g origin [] ref of
                  Inl e \<Rightarrow>
                    Inl (e, v\<lparr>events := events v @ [Request (GetRepo origin),
                                                       Request (GetContents origin [] ref)]\<rparr>)
                | Inr contents \<Rightarrow>
                    Inr (info g (''Repository '' @ name
                           @ '' already exists. Skipping clone. (Set overwrite=True to force clone)'')
                          (v\<lparr>events := events v @ [Request (GetRepo origin),
                                                       Request (GetContents origin [] ref)]\<rparr>))))"
    if a: "resolve_origin u n ro = Inr (origin, Some name)" "exists_path (fs v) (Path name)"
    for g origin name v
  proof (cases "remote_repo g origin")
    case (Some e)
    with a clone_repo_lookup_fails [of u n ro origin "Some name" g e ref False v]
    show ?thesis by (simp add: new_events_def)
  next
    case None
    show ?thesis
    proof (cases "remote_contents g origin [] ref")
      case (Inl e)
      with a None clone_repo_listing_fails [of u n ro origin "Some name" g ref e False v]
      show ?thesis by (simp add: new_events_def)
    next
      case (Inr contents)
      with a None clone_repo_skips [of u n ro origin name g ref contents v]
      show ?thesis by (simp add: new_events_def info_def)
    qed
  qed
  show ?thesis
  proof (rule conjI; rule impI)
    assume "resolve_origin u n ro = Inr (origin, Some name) \<and> exists_path (fs w) (Path name)"
    then show "fs (final (clone_repo gh u n ro ref False w)) = fs w \<and>
      filter is_fs_event (new_events w (final (clone_repo gh u n ro ref False w))) = [] \<and>
      clone_repo gh u n ro ref False w
        = (case remote_repo gh origin of
             Some e \<Rightarrow> Inl (e, w\<lparr>events := events w @ [Request (GetRepo origin)]\<rparr>)
           | None \<Rightarrow>
               (case remote_contents gh origin [] ref of
                  Inl e \<Rightarrow>
                    Inl (e, w\<lparr>events := events w @ [Request (GetRepo origin),
                                                       Request (GetContents origin [] ref)]\<rparr>)
                | Inr contents \<Rightarrow>
                    Inr (info gh (''Repository '' @ name
                           @ '' already exists. Skipping clone. (Set overwrite=True to force clone)'')
                          (w\<lparr>events := events w @ [Request (GetRepo origin),
                                                       Request (GetContents origin [] ref)]\<rparr>))))"
      using skip [of origin name w gh] by blast
  next
    assume "clone_repo gh u n ro ref False w = Inr w1"
    from clone_repo_Inr_exists [OF this] obtain origin' name' where
      h: "resolve_origin u n ro = Inr (origin', Some name')" "exists_path (fs w1) (Path name')"
      by blast
    then have ex: "\<exists>origin name. resolve_origin u n ro = Inr (origin, Some name) \<and>
                     exists_path (fs w1) (Path name)" by blast
    have "\<forall>gh'. fs (final (clone_repo gh' u n ro ref False w1)) = fs w1 \<and>
             filter is_fs_event (new_events w1 (final (clone_repo gh' u n ro ref False w1))) = [] \<and>
             (\<forall>origin name contents.
                resolve_origin u n ro = Inr (origin, Some name) \<and>
                remote_repo gh' origin = None \<and>
                remote_contents gh' origin [] ref = Inr contents \<longrightarrow>
                clone_repo gh' u n ro ref False w1
                  = Inr (info gh' (''Repository '' @ name
                           @ '' already exists. Skipping clone. (Set overwrite=True to force clone)'')
                          (w1\<lparr>events := events w1 @ [Request (GetRepo origin),
                                                         Request (GetContents origin [] ref)]\<rparr>)))"
    proof (intro allI conjI impI)
      fix gh'
      from skip [OF h, of gh']
      show "fs (final (clone_repo gh' u n ro ref False w1)) = fs w1"
        and "filter is_fs_event (new_events w1 (final (clone_repo gh' u n ro ref False w1))) = []"
        by blast+
      fix origin name contents
      assume b: "resolve_origin u n ro = Inr (origin, Some name) \<and>
                remote_repo gh' origin = None \<and>
                remote_contents gh' origin [] ref = Inr contents"
      with h have "origin = origin'" "name = name'" by simp_all
      with b h clone_repo_skips [of u n ro origin name gh' ref contents w1]
      show "clone_repo gh' u n ro ref False w1
                  = Inr (info gh' (''Repository '' @ name
                           @ '' already exists. Skipping clone. (Set overwrite=True to force clone)'')
                          (w1\<lparr>events := events w1 @ [Request (GetRepo origin),
                                                         Request (GetContents origin [] ref)]\<rparr>))"
        by simp
    qed
    with ex show "(\<exists>origin name. resolve_origin u n ro = Inr (origin, Some name) \<and>
                     exists_path (fs w1) (Path name)) \<and>
      (\<forall>gh'. fs (final (clone_repo gh' u n ro ref False w1)) = fs w1 \<and>
             filter is_fs_event (new_events w1 (final (clone_repo gh' u n ro ref False w1))) = [] \<and>
             (\<forall>origin name contents.
                resolve_origin u n ro = Inr (origin, Some name) \<and>
                remote_repo gh' origin = None \<and>
                remote_contents gh' origin [] ref = Inr contents \<longrightarrow>
                clone_repo gh' u n ro ref False w1
                  = Inr (info gh' (''Repository '' @ name
                           @ '' already exists. Skipping clone. (Set overwrite=True to force clone)'')
                          (w1\<lparr>events := events w1 @ [Request (GetRepo origin),
                                                         Request (GetContents origin [] ref)]\<rparr>))))"
      by (rule conjI)
  qed
qed

theorem clone_repo_skips_existing_destination_witness:
  "resolve_origin None None (Some ''u/r'') = Inr (''u/r'', Some ''r'') \<and>
   exists_path (fs populated_world) (Path ''r'') \<and>
   fs (final (clone_repo demo None None (Some ''u/r'') None False populated_world))
     = fs populated_world \<and>
   clone_repo demo None None (Some ''u/r'') None False populated_world
     = Inr (populated_world\<lparr>events :=
         [Request (GetRepo ''u/r''), Request (GetContents ''u/r'' [] None),
          Notice ''Repository r already exists. Skipping clone. (Set overwrite=True to force clone)'']\<rparr>) \<and>
   (\<exists>w1. clone_repo demo None None (Some ''u/r'') None False empty_world = Inr w1 \<and>
      remote_repo flaky ''u/r'' = None \<and>
      remote_contents flaky ''u/r'' [] None
        = Inr (Listing [\<lparr>ctype = ''file'', cpath = ''a.txt''\<rparr>, \<lparr>ctype = ''dir'', cpath = ''b''\<rparr>]) \<and>
      fs (final (clone_repo flaky None None (Some ''u/r'') None False w1)) = fs w1 \<and>
      clone_repo flaky None None (Some ''u/r'') None False w1
        = Inr (info flaky ''Repository r already exists. Skipping clone. (Set overwrite=True to force clone)''
                (w1\<lparr>events := events w1 @ [Request (GetRepo ''u/r''),
                                               Request (GetContents ''u/r'' [] None)]\<rparr>)))"
proof -
  have r: "resolve_origin None None (Some ''u/r'') = Inr (''u/r'', Some ''r'')"
    by (rule demo_resolve)
  have e: "exists_path (fs populated_world) (Path ''r'')"
    by (simp add: exists_path_def node_at_def Path_def populated_world_def)
  obtain w1 where w1: "clone_repo demo None None (Some ''u/r'') None False empty_world = Inr w1"
    by (simp add: clone_eval demo_def demo_contents_def empty_world_def)
  have fr: "remote_repo flaky ''u/r'' = None"
    and fc: "remote_contents flaky ''u/r'' [] None
        = Inr (Listing [\<lparr>ctype = ''file'', cpath = ''a.txt''\<rparr>, \<lparr>ctype = ''dir'', cpath = ''b''\<rparr>])"
    by (simp_all add: flaky_def flaky_contents_def demo_def demo_contents_def)
  from clone_repo_skips_existing_destination
         [where u = None and n = None and ro = "Some ''u/r''" and origin = "''u/r''"
            and name = "''r''" and w = populated_world and gh = demo and ref = None] r e
  have 1: "fs (final (clone_repo demo None None (Some ''u/r'') None False populated_world))
     = fs populated_world"
    and 2: "clone_repo demo None None (Some ''u/r'') None False populated_world
     = Inr (populated_world\<lparr>events :=
         [Request (GetRepo ''u/r''), Request (GetContents ''u/r'' [] None),
          Notice ''Repository r already exists. Skipping clone. (Set overwrite=True to force clone)'']\<rparr>)"
    by (simp_all add: demo_def demo_contents_def info_def populated_world_def)
  from clone_repo_skips_existing_destination
         [where u = None and n = None and ro = "Some ''u/r''"
            and w = empty_world and gh = demo and ref = None and ?w1.0 = w1] w1
  have 3: "\<forall>gh'. fs (final (clone_repo gh' None None (Some ''u/r'') None False w1)) = fs w1 \<and>
             filter is_fs_event (new_events w1 (final (clone_repo gh' None None (Some ''u/r'') None False w1))) = [] \<and>
             (\<forall>origin name contents.
                resolve_origin None None (Some ''u/r'') = Inr (origin, Some name) \<and>
                remote_repo gh' origin = None \<and>
                remote_contents gh' origin [] None = Inr contents \<longrightarrow>
                clone_repo gh' None None (Some ''u/r'') None False w1
                  = Inr (info gh' (''Repository '' @ name
                           @ '' already exists. Skipping clone. (Set overwrite=True to force clone)'')
                          (w1\<lparr>events := events w1 @ [Request (GetRepo origin),
                                                         Request (GetContents origin [] None)]\<rparr>)))"
    by blast
  from 3 have 4: "fs (final (clone_repo flaky None None (Some ''u/r'') None False w1)) = fs w1"
    by blast
  from 3 [THEN spec, of flaky, THEN conjunct2, THEN conjunct2, THEN spec, THEN spec, THEN spec,
          of "''u/r''" "''r''"] r fr fc
  have 5: "clone_repo flaky None None (Some ''u/r'') None False w1
        = Inr (info flaky (''Repository '' @ ''r''
                           @ '' already exists. Skipping clone. (Set overwrite=True to force clone)'')
                (w1\<lparr>events := events w1 @ [Request (GetRepo ''u/r''),
                                               Request (GetContents ''u/r'' [] None)]\<rparr>))"
    by blast
  from 5 have 6: "clone_repo flaky None None (Some ''u/r'') None False w1
        = Inr (info flaky ''Repository r already exists. Skipping clone. (Set overwrite=True to force clone)''
                (w1\<lparr>events := events w1 @ [Request (GetRepo ''u/r''),
                                               Request (GetContents ''u/r'' [] None)]\<rparr>))"
    by simp
  from r e 1 2 w1 fr fc 4 6 show ?thesis by blast
qed

text \<open>
  C1 as written excludes every remote call. In a working directory that holds \<^verbatim>\<open>r\<close>
  already, the call still sends the repository lookup and the root listing request
  before it prints the notice and returns.
\<close>

theorem clone_repo_skip_requests_counterexample:
  "exists_path (fs populated_world) (Path ''r'') \<and>
   filter is_request
     (new_events populated_world
        (final (clone_repo demo None None (Some ''u/r'') None False populated_world)))
   = [Request (GetRepo ''u/r''), Request (GetContents ''u/r'' [] None)]"
  by (simp add: demo_skip_events) (simp add: exists_path_def node_at_def Path_def populated_world_def)

text \<open>
  C3: of all content requests of a clone, only the root listing carries the ref given
  to \<^verbatim>\<open>clone_repo\<close>. Every request made inside \<^verbatim>\<open>process_content\<close>, for a
  subdirectory listing or for the content of a file, is sent without a ref, so the
  remote answers it from the default branch.
\<close>

theorem clone_repo_ref_only_at_root:
  "ref_free (new_events w (final (process_all gh origin name d cs w))) \<and>
   (resolve_origin u n ro = Inr (origin, nm) \<longrightarrow>
      new_events w (final (clone_repo gh u n ro ref ov w)) = [Request (GetRepo origin)] \<or>
      (\<exists>rest. new_events w (final (clone_repo gh u n ro ref ov w))
                = Request (GetRepo origin) # Request (GetContents origin [] ref) # rest \<and>
              ref_free rest))"
proof (intro conjI impI)
  show "ref_free (new_events w (final (process_all gh origin name d cs w)))"
    by (rule advance_ref_free [OF advance_walk(2)])
next
  assume res: "resolve_origin u n ro = Inr (origin, nm)"
  let ?r = "clone_repo gh u n ro ref ov w"
  let ?w2 = "w\<lparr>events := events w @ [Request (GetRepo origin),
                                            Request (GetContents origin [] ref)]\<rparr>"
  show "new_events w (final ?r) = [Request (GetRepo origin)] \<or>
      (\<exists>rest. new_events w (final ?r)
                = Request (GetRepo origin) # Request (GetContents origin [] ref) # rest \<and>
              ref_free rest)"
  proof (cases "remote_repo gh origin")
    case (Some e)
    with res clone_repo_lookup_fails [of u n ro origin nm gh e ref ov w]
    show ?thesis by (simp add: new_events_def)
  next
    case None
    show ?thesis
    proof (cases "remote_contents gh origin [] ref")
      case (Inl e)
      with res None clone_repo_listing_fails [of u n ro origin nm gh ref e ov w]
      show ?thesis by (simp add: new_events_def ref_free_def)
    next
      case (Inr contents)
      from clone_repo_after_listing [OF res None Inr, of w ov]
      have adv: "advance ?w2 (final ?r)" .
      from advance_events [OF adv]
      have "events (final ?r) = events w @ Request (GetRepo origin)
              # Request (GetContents origin [] ref) # new_events ?w2 (final ?r)"
        by simp
      then have "new_events w (final ?r) = Request (GetRepo origin)
              # Request (GetContents origin [] ref) # new_events ?w2 (final ?r)"
        by (rule new_events_append)
      with advance_ref_free [OF adv] show ?thesis by blast
    qed
  qed
qed

theorem clone_repo_ref_only_at_root_witness:
  "resolve_origin None None (Some ''u/r'') = Inr (''u/r'', Some ''r'') \<and>
   Request (GetContents ''u/r'' ''b/c.bin'' None)
     \<in> set (new_events empty_world
         (final (clone_repo demo None None (Some ''u/r'') (Some ''dev'') False empty_world))) \<and>
   Request (GetContents ''u/r'' ''b/c.bin'' (Some ''dev''))
     \<notin> set (new_events empty_world
         (final (clone_repo demo None None (Some ''u/r'') (Some ''dev'') False empty_world)))"
  using clone_repo_ref_only_at_root
          [of empty_world demo "''u/r''" "''r''" 0 "[]" None None "Some ''u/r''" "Some ''r''"
              "Some ''dev''" False]
  by (simp add: demo_resolve demo_dev_events)







text \<open>
  C9: a failure during the clone reaches the caller as it was raised, ends the walk,
  and leaves on disk what was written before it.
  \<^item> A request that the remote refuses is the last event of the call, and the call
    raises the error of the refusal.
  \<^item> A call that raises leaves on disk what it has written and deletes nothing: every
    path that it has written holds the bytes of the last write to it, and every other
    path that existed before is exactly as it was.
  \<^item> A directory creation that has not left a directory at its path is the last event
    of the call, and the call raises the error of that \<^verbatim>\<open>mkdir\<close>.
  \<^item> A repository name that cannot be resolved is the failure of the call. Past the
    lookup, the listing and the check of the destination, the outcome of the call is
    the failure of the creation of the destination directory or else the outcome of
    the loop over the root listing.
  \<^item> When an entry of a listing fails, the loop over the listing ends with that error
    and in that world: the entries after it are not processed.
  \<^item> With no nested call left an entry fails with \<^verbatim>\<open>RecursionError\<close>. The outcome of a
    directory entry is the failure of the creation of its directory, or else the
    failure of the fetch of its listing, or else the outcome of the loop over its
    listing. The outcome of a file entry is the failure of the fetch of its content,
    or else the outcome of the write.
  \<^item> A directory that cannot be created, a file that cannot be opened, a lookup or a
    content request that the remote refuses: each is the failure of the operation
    that meets it, in the world at that point.
\<close>

theorem clone_repo_failure_propagates:
  "(\<forall>q e. Request q \<in> set (new_events w (final (clone_repo gh u n ro ref ov w))) \<and>
          answer gh q = Some e \<longrightarrow>
          clone_repo gh u n ro ref ov w = Inl (e, final (clone_repo gh u n ro ref ov w)) \<and>
          last (new_events w (final (clone_repo gh u n ro ref ov w))) = Request q) \<and>
   (\<forall>e w'. clone_repo gh u n ro ref ov w = Inl (e, w') \<longrightarrow>
          (\<forall>p. case last_write p (new_events w w') of
                  Some pl \<Rightarrow> fs w' p = Some (File (payload_bytes pl))
                | None \<Rightarrow> (\<forall>pl. WriteFile p pl \<notin> set (new_events w w')) \<and>
                          (\<forall>x. fs w p = Some x \<longrightarrow> fs w' p = Some x)) \<and>
          preserved (fs w) (fs w')) \<and>
   (\<forall>pre p post.
          new_events w (final (clone_repo gh u n ro ref ov w)) = pre @ MkDir p # post \<and>
          node_at (fs (final (clone_repo gh u n ro ref ov w))) p \<noteq> Some Dir \<longrightarrow>
          post = [] \<and>
          (\<exists>e f. mkdir p f = Inl (e, fs (final (clone_repo gh u n ro ref ov w))) \<and>
                 clone_repo gh u n ro ref ov w
                   = Inl (e, final (clone_repo gh u n ro ref ov w)))) \<and>
   (\<forall>e. resolve_origin u n ro = Inl e \<longrightarrow> clone_repo gh u n ro ref ov w = Inl (e, w)) \<and>
   (\<forall>cs. resolve_origin u n ro = Inr (origin, Some name) \<and> remote_repo gh origin = None \<and>
          remote_contents gh origin [] ref = Inr (Listing cs) \<and>
          \<not> (exists_path (fs w) (Path name) \<and> \<not> ov) \<longrightarrow>
          clone_repo gh u n ro ref ov w
            = (case make_dir (Path name)
                      (if exists_path (fs w) (Path name)
                       then info gh (''Repository '' @ name @ '' already exists. Overwriting objects.'')
                              (w\<lparr>events := events w @ [Request (GetRepo origin),
                                                           Request (GetContents origin [] ref)]\<rparr>)
                       else w\<lparr>events := events w @ [Request (GetRepo origin),
                                                      Request (GetContents origin [] ref)]\<rparr>) of
                 Inl r \<Rightarrow> Inl r
               | Inr w3 \<Rightarrow> process_all gh origin name (recursion_limit gh) cs
                             (info gh (''Processing repository: '' @ name) w3))) \<and>
   (\<forall>e v1 v2. process_all gh origin name d cs1 v = Inr v1 \<and>
          process_content gh origin name d c v1 = Inl (e, v2) \<longrightarrow>
          process_all gh origin name d (cs1 @ c # cs2) v = Inl (e, v2)) \<and>
   process_content gh origin name 0 c v = Inl (RecursionError, v) \<and>
   (ctype c = ''dir'' \<longrightarrow>
      process_content gh origin name (Suc d) c v
        = (case make_dir (Path name @ Path (cpath c))
                  (info gh (''Processing directory: '' @ cpath c) v) of
             Inl r \<Rightarrow> Inl r
           | Inr v1 \<Rightarrow>
               (case get_repo_content gh origin (cpath c) None v1 of
                  Inl r \<Rightarrow> Inl r
                | Inr (Listing cs, v2) \<Rightarrow> process_all gh origin name d cs v2
                | Inr (SingleFile x, v2) \<Rightarrow> Inl (TypeError, v2)))) \<and>
   (ctype c \<noteq> ''dir'' \<and> ctype c = ''file'' \<longrightarrow>
      process_content gh origin name (Suc d) c v
        = (case get_file_content gh origin (cpath c) None
                  (info gh (''Processing file: '' @ cpath c) v) of
             Inl r \<Rightarrow> Inl r
           | Inr ((pl, flag), v1) \<Rightarrow> write_file (Path name @ Path (cpath c)) flag pl v1)) \<and>
   (\<forall>e f. mkdir target (fs v) = Inl (e, f) \<longrightarrow>
          make_dir target v = Inl (e, v\<lparr>events := events v @ [MkDir target], fs := f\<rparr>)) \<and>
   (\<forall>e. open_w target (fs v) = Inl e \<longrightarrow> write_file target flag pl v = Inl (e, v)) \<and>
   (\<forall>e. remote_repo gh origin = Some e \<longrightarrow>
          get_repo_content gh origin path_str r v
            = Inl (e, v\<lparr>events := events v @ [Request (GetRepo origin)]\<rparr>) \<and>
          get_file_content gh origin path_str r v
            = Inl (e, v\<lparr>events := events v @ [Request (GetRepo origin)]\<rparr>)) \<and>
   (\<forall>e. remote_repo gh origin = None \<and> remote_contents gh origin path_str r = Inl e \<longrightarrow>
          get_repo_content gh origin path_str r v
            = Inl (e, v\<lparr>events := events v @ [Request (GetRepo origin),
                                                  Request (GetContents origin path_str r)]\<rparr>) \<and>
          get_file_content gh origin path_str r v
            = Inl (e, v\<lparr>events := events v @ [Request (GetRepo origin),
                                                  Request (GetContents origin path_str r)]\<rparr>))"
proof -
  have c1: "\<forall>q e. Request q \<in> set (new_events w (final (clone_repo gh u n ro ref ov w))) \<and>
          answer gh q = Some e \<longrightarrow>
          clone_repo gh u n ro ref ov w = Inl (e, final (clone_repo gh u n ro ref ov w)) \<and>
          last (new_events w (final (clone_repo gh u n ro ref ov w))) = Request q"
  proof (intro allI impI)
    fix q e
    assume a: "Request q \<in> set (new_events w (final (clone_repo gh u n ro ref ov w))) \<and>
            answer gh q = Some e"
    from stops_failed_request [OF clone_repo_stops, of q w gh u n ro ref ov e] a
    have r: "raised (clone_repo gh u n ro ref ov w) = Some e"
      and l: "last (new_events w (final (clone_repo gh u n ro ref ov w))) = Request q"
      by simp_all
    from r have "clone_repo gh u n ro ref ov w = Inl (e, final (clone_repo gh u n ro ref ov w))"
      by (cases "clone_repo gh u n ro ref ov w") (auto simp: raised_def)
    with l show "clone_repo gh u n ro ref ov w = Inl (e, final (clone_repo gh u n ro ref ov w)) \<and>
          last (new_events w (final (clone_repo gh u n ro ref ov w))) = Request q" by simp
  qed
  have c2: "\<forall>e w'. clone_repo gh u n ro ref ov w = Inl (e, w') \<longrightarrow>
          (\<forall>p. case last_write p (new_events w w') of
                  Some pl \<Rightarrow> fs w' p = Some (File (payload_bytes pl))
                | None \<Rightarrow> (\<forall>pl. WriteFile p pl \<notin> set (new_events w w')) \<and>
                          (\<forall>x. fs w p = Some x \<longrightarrow> fs w' p = Some x)) \<and>
          preserved (fs w) (fs w')"
  proof (intro allI impI)
    fix e w' assume f: "clone_repo gh u n ro ref ov w = Inl (e, w')"
    with clone_repo_keeps [of w gh u n ro ref ov] have k: "keeps w w'" by simp
    have "case last_write p (new_events w w') of
                  Some pl \<Rightarrow> fs w' p = Some (File (payload_bytes pl))
                | None \<Rightarrow> (\<forall>pl. WriteFile p pl \<notin> set (new_events w w')) \<and>
                          (\<forall>x. fs w p = Some x \<longrightarrow> fs w' p = Some x)" for p
    proof (cases "last_write p (new_events w w')")
      case (Some pl)
      with k show ?thesis unfolding keeps_def by simp
    next
      case None
      then have nw: "\<forall>pl. WriteFile p pl \<notin> set (new_events w w')"
        using last_write_Some [of p _ "new_events w w'"] by blast
      with k have "\<forall>x. fs w p = Some x \<longrightarrow> fs w' p = Some x"
        unfolding keeps_def by blast
      with nw None show ?thesis by simp
    qed
    with keeps_preserved [OF k]
    show "(\<forall>p. case last_write p (new_events w w') of
                  Some pl \<Rightarrow> fs w' p = Some (File (payload_bytes pl))
                | None \<Rightarrow> (\<forall>pl. WriteFile p pl \<notin> set (new_events w w')) \<and>
                          (\<forall>x. fs w p = Some x \<longrightarrow> fs w' p = Some x)) \<and>
          preserved (fs w) (fs w')" by blast
  qed
  have c2m: "\<forall>pre p post.
          new_events w (final (clone_repo gh u n ro ref ov w)) = pre @ MkDir p # post \<and>
          node_at (fs (final (clone_repo gh u n ro ref ov w))) p \<noteq> Some Dir \<longrightarrow>
          post = [] \<and>
          (\<exists>e f. mkdir p f = Inl (e, fs (final (clone_repo gh u n ro ref ov w))) \<and>
                 clone_repo gh u n ro ref ov w
                   = Inl (e, final (clone_repo gh u n ro ref ov w)))"
  proof (intro allI impI)
    fix pre p post
    assume a: "new_events w (final (clone_repo gh u n ro ref ov w)) = pre @ MkDir p # post \<and>
          node_at (fs (final (clone_repo gh u n ro ref ov w))) p \<noteq> Some Dir"
    from makes_failed_mkdir [OF clone_repo_makes, of w gh u n ro ref ov pre p post] a
    obtain e f where post: "post = []"
      and m: "mkdir p f = Inl (e, fs (final (clone_repo gh u n ro ref ov w)))"
      and r: "raised (clone_repo gh u n ro ref ov w) = Some e" by blast
    from r have "clone_repo gh u n ro ref ov w = Inl (e, final (clone_repo gh u n ro ref ov w))"
      by (cases "clone_repo gh u n ro ref ov w") (auto simp: raised_def)
    with post m show "post = [] \<and>
          (\<exists>e f. mkdir p f = Inl (e, fs (final (clone_repo gh u n ro ref ov w))) \<and>
                 clone_repo gh u n ro ref ov w
                   = Inl (e, final (clone_repo gh u n ro ref ov w)))" by blast
  qed
  have c3: "\<forall>e. resolve_origin u n ro = Inl e \<longrightarrow> clone_repo gh u n ro ref ov w = Inl (e, w)"
    by (simp add: clone_repo_unresolved)
  have c4: "\<forall>cs. resolve_origin u n ro = Inr (origin, Some name) \<and> remote_repo gh origin = None \<and>
          remote_contents gh origin [] ref = Inr (Listing cs) \<and>
          \<not> (exists_path (fs w) (Path name) \<and> \<not> ov) \<longrightarrow>
          clone_repo gh u n ro ref ov w
            = (case make_dir (Path name)
                      (if exists_path (fs w) (Path name)
                       then info gh (''Repository '' @ name @ '' already exists. Overwriting objects.'')
                              (w\<lparr>events := events w @ [Request (GetRepo origin),
                                                           Request (GetContents origin [] ref)]\<rparr>)
                       else w\<lparr>events := events w @ [Request (GetRepo origin),
                                                      Request (GetContents origin [] ref)]\<rparr>) of
                 Inl r \<Rightarrow> Inl r
               | Inr w3 \<Rightarrow> process_all gh origin name (recursion_limit gh) cs
                             (info gh (''Processing repository: '' @ name) w3))"
    by (cases "exists_path (fs w) (Path name)")
       (simp_all add: clone_repo_def get_repo_def get_contents_def split: sum.splits)
  have c5: "\<forall>e v1 v2. process_all gh origin name d cs1 v = Inr v1 \<and>
          process_content gh origin name d c v1 = Inl (e, v2) \<longrightarrow>
          process_all gh origin name d (cs1 @ c # cs2) v = Inl (e, v2)"
    by (simp add: process_all_aborts)
  have c6: "process_content gh origin name 0 c v = Inl (RecursionError, v)" by simp
  have c7: "ctype c = ''dir'' \<longrightarrow>
      process_content gh origin name (Suc d) c v
        = (case make_dir (Path name @ Path (cpath c))
                  (info gh (''Processing directory: '' @ cpath c) v) of
             Inl r \<Rightarrow> Inl r
           | Inr v1 \<Rightarrow>
               (case get_repo_content gh origin (cpath c) None v1 of
                  Inl r \<Rightarrow> Inl r
                | Inr (Listing cs, v2) \<Rightarrow> process_all gh origin name d cs v2
                | Inr (SingleFile x, v2) \<Rightarrow> Inl (TypeError, v2)))"
    by (simp split: sum.splits prod.splits response.splits)
  have c8: "ctype c \<noteq> ''dir'' \<and> ctype c = ''file'' \<longrightarrow>
      process_content gh origin name (Suc d) c v
        = (case get_file_content gh origin (cpath c) None
                  (info gh (''Processing file: '' @ cpath c) v) of
             Inl r \<Rightarrow> Inl r
           | Inr ((pl, flag), v1) \<Rightarrow> write_file (Path name @ Path (cpath c)) flag pl v1)"
    by simp
  have c9: "\<forall>e f. mkdir target (fs v) = Inl (e, f) \<longrightarrow>
          make_dir target v = Inl (e, v\<lparr>events := events v @ [MkDir target], fs := f\<rparr>)"
    by (simp add: make_dir_def)
  have c10: "\<forall>e. open_w target (fs v) = Inl e \<longrightarrow> write_file target flag pl v = Inl (e, v)"
    by (simp add: write_file_def)
  have c11: "\<forall>e. remote_repo gh origin = Some e \<longrightarrow>
          get_repo_content gh origin path_str r v
            = Inl (e, v\<lparr>events := events v @ [Request (GetRepo origin)]\<rparr>) \<and>
          get_file_content gh origin path_str r v
            = Inl (e, v\<lparr>events := events v @ [Request (GetRepo origin)]\<rparr>)"
    by (simp add: get_repo_content_def get_file_content_def get_repo_def)
  have c12: "\<forall>e. remote_repo gh origin = None \<and> remote_contents gh origin path_str r = Inl e \<longrightarrow>
          get_repo_content gh origin path_str r v
            = Inl (e, v\<lparr>events := events v @ [Request (GetRepo origin),
                                                  Request (GetContents origin path_str r)]\<rparr>) \<and>
          get_file_content gh origin path_str r v
            = Inl (e, v\<lparr>events := events v @ [Request (GetRepo origin),
                                                  Request (GetContents origin path_str r)]\<rparr>)"
    by (simp add: get_repo_content_def get_file_content_def get_repo_def get_contents_def)
  from c1 c2 c2m c3 c4 c5 c6 c7 c8 c9 c10 c11 c12 show ?thesis by (intro conjI)
qed

theorem clone_repo_failure_propagates_witness:
  "answer flaky (GetContents ''u/r'' ''b/c.bin'' None) = Some ConnectionError \<and>
   clone_repo flaky None None (Some ''u/r'') None False empty_world
     = Inl (ConnectionError,
            final (clone_repo flaky None None (Some ''u/r'') None False empty_world)) \<and>
   last (new_events empty_world
          (final (clone_repo flaky None None (Some ''u/r'') None False empty_world)))
     = Request (GetContents ''u/r'' ''b/c.bin'' None) \<and>
   last_write [''r'', ''a.txt'']
     (new_events empty_world
        (final (clone_repo flaky None None (Some ''u/r'') None False empty_world)))
     = Some (Text [104, 105]) \<and>
   fs (final (clone_repo flaky None None (Some ''u/r'') None False empty_world)) [''r'', ''a.txt'']
     = Some (File [104, 105]) \<and>
   (\<exists>e f. mkdir [''r'', ''b''] f
            = Inl (e, fs (final (clone_repo demo None None (Some ''u/r'') None True blocked_world))) \<and>
          clone_repo demo None None (Some ''u/r'') None True blocked_world
            = Inl (e, final (clone_repo demo None None (Some ''u/r'') None True blocked_world))) \<and>
   raised (clone_repo demo None None (Some ''u/r'') None True blocked_world)
     = Some FileExistsError \<and>
   last (new_events blocked_world
           (final (clone_repo demo None None (Some ''u/r'') None True blocked_world)))
     = MkDir [''r'', ''b''] \<and>
   fs (final (clone_repo demo None None (Some ''u/r'') None True blocked_world))
     [''r'', ''a.txt''] = Some (File [104, 105])"
proof -
  let ?r = "clone_repo flaky None None (Some ''u/r'') None False empty_world"
  have a: "answer flaky (GetContents ''u/r'' ''b/c.bin'' None) = Some ConnectionError"
    by (simp add: flaky_def flaky_contents_def)
  have m: "Request (GetContents ''u/r'' ''b/c.bin'' None)
     \<in> set (new_events empty_world (final ?r))"
    by (simp add: flaky_events)
  have lw: "last_write [''r'', ''a.txt''] (new_events empty_world (final ?r))
     = Some (Text [104, 105])"
    by (simp add: flaky_events)
  note inst = clone_repo_failure_propagates
         [where w = empty_world and gh = flaky and u = None and n = None
            and ro = "Some ''u/r''" and ref = None and ov = False and origin = "''u/r''"
            and name = "''r''" and d = 0 and ?cs1.0 = "[]" and ?cs2.0 = "[]"
            and c = "\<lparr>ctype = ''file'', cpath = ''a.txt''\<rparr>" and v = empty_world]
  from inst [THEN conjunct1, THEN spec, THEN spec, THEN mp, OF conjI [OF m a]]
  have f: "?r = Inl (ConnectionError, final ?r)"
    and l: "last (new_events empty_world (final ?r))
     = Request (GetContents ''u/r'' ''b/c.bin'' None)"
    by simp_all
  from inst [THEN conjunct2, THEN conjunct1, THEN spec, THEN spec, THEN mp, OF f,
             THEN conjunct1, THEN spec, of "[''r'', ''a.txt'']"]
  have "fs (final ?r) [''r'', ''a.txt''] = Some (File (payload_bytes (Text [104, 105])))"
    unfolding lw by simp
  then have c: "fs (final ?r) [''r'', ''a.txt''] = Some (File [104, 105])"
    by (simp only: payload_hi)
  from clone_repo_failure_propagates
         [where w = blocked_world and gh = demo and u = None and n = None
            and ro = "Some ''u/r''" and ref = None and ov = True,
          THEN conjunct2, THEN conjunct2, THEN conjunct1, THEN spec, THEN spec, THEN spec, THEN mp,
          OF conjI [OF blocked_events blocked_node]]
  have b: "\<exists>e f. mkdir [''r'', ''b''] f
            = Inl (e, fs (final (clone_repo demo None None (Some ''u/r'') None True blocked_world))) \<and>
          clone_repo demo None None (Some ''u/r'') None True blocked_world
            = Inl (e, final (clone_repo demo None None (Some ''u/r'') None True blocked_world))"
    by blast
  from a f l lw c b blocked_raised blocked_last blocked_file show ?thesis by blast
qed

section \<open>The claim about the user aggregation\<close>

text \<open>
  C10, as amended: for every username and every limit \<open>n \<ge> 0\<close>, a call of
  \<^verbatim>\<open>get_user_info\<close> that returns gives at most \<open>n\<close> gists and at most \<open>n\<close> repositories
  (the first \<open>n\<close> of each), while the two dictionaries have one entry for every
  repository that the remote lists for the user, whatever \<open>n\<close> is; \<^verbatim>\<open>followers\<close> and
  \<^verbatim>\<open>followings\<close> are empty lists, and the only requests made are those for the user,
  the gists and the repositories.
\<close>

theorem get_user_info_limits:
  assumes "get_user_info api username (Some n) w = Inr (u, w')" and "0 \<le> n"
  shows "\<exists>all_gists all_repos.
           remote_gists api username = Inr all_gists \<and>
           remote_repos api username = Inr all_repos \<and>
           gists u = PyList (take (nat n) all_gists) \<and> length (take (nat n) all_gists) \<le> nat n \<and>
           repos u = PyList (take (nat n) all_repos) \<and> length (take (nat n) all_repos) \<le> nat n \<and>
           dom (user_repo_issues u) = repo_name ` set all_repos \<and>
           dom (user_repo_pull_requests u) = repo_name ` set all_repos \<and>
           followers u = [] \<and> followings u = [] \<and>
           (\<forall>nm. Request (GetFollowers nm) \<notin> set (new_events w w') \<and>
                 Request (GetFollowing nm) \<notin> set (new_events w w'))"
proof -
  from assms(1) obtain usr all_gists all_repos where
    r: "remote_user api username = Inr usr" "remote_gists api username = Inr all_gists"
       "remote_repos api username = Inr all_repos"
    and u: "u = \<lparr>user_id = Some (nu_id usr), user = Some usr,
                 gists = limiter (PyList all_gists) (Some n),
                 repos = limiter (PyList all_repos) (Some n),
                 followings = [], followers = [],
                 user_repo_issues = fst (index_repos all_repos (Map.empty, Map.empty)),
                 user_repo_pull_requests = snd (index_repos all_repos (Map.empty, Map.empty))\<rparr>"
    by (auto simp: get_user_info_def Let_def split: sum.splits)
  have g: "gists u = PyList (take (nat n) all_gists)" "repos u = PyList (take (nat n) all_repos)"
    using assms(2) by (simp_all add: u limiter_def slice_upto_nonneg)
  have d: "dom (user_repo_issues u) = repo_name ` set all_repos"
    "dom (user_repo_pull_requests u) = repo_name ` set all_repos"
    using index_repos_dom [of all_repos Map.empty Map.empty] by (simp_all add: u)
  have f: "followers u = []" "followings u = []" by (simp_all add: u)
  have e: "\<forall>nm. Request (GetFollowers nm) \<notin> set (new_events w w') \<and>
                 Request (GetFollowing nm) \<notin> set (new_events w w')"
    by (simp add: get_user_info_events [OF assms(1)])
  from r g d f e show ?thesis by simp
qed

theorem get_user_info_limits_witness:
  "map_option gists (returned (get_user_info alice_api ''alice'' (Some 2) empty_world))
     = Some (PyList [1, 2]) \<and>
   map_option repos (returned (get_user_info alice_api ''alice'' (Some 2) empty_world))
     = Some (PyList (take 2 alice_repos)) \<and>
   map_option (\<lambda>u. dom (user_repo_issues u))
       (returned (get_user_info alice_api ''alice'' (Some 2) empty_world))
     = Some {''r1'', ''r2'', ''r3''}"
proof -
  obtain u w' where r: "get_user_info alice_api ''alice'' (Some 2) empty_world = Inr (u, w')"
    by (simp add: get_user_info_def alice_api_def Let_def)
  have z: "(0::int) \<le> 2" by simp
  from get_user_info_limits [OF r z]
  have "gists u = PyList [1, 2]" "repos u = PyList (take 2 alice_repos)"
    "dom (user_repo_issues u) = {''r1'', ''r2'', ''r3''}"
    by (auto simp: alice_api_def alice_repos_def)
  with r show ?thesis by (simp add: returned_def)
qed

text \<open>
  C10 as written covers every numeric limit. With the limit \<open>-1\<close> the slice drops the
  last of the three gists and two come back, which is more than \<open>-1\<close>.
\<close>

theorem get_user_info_negative_limit_counterexample:
  "map_option gists (returned (get_user_info alice_api ''alice'' (Some (- 1)) empty_world))
     = Some (PyList [1, 2]) \<and>
   \<not> int (length [1, 2 :: nat]) \<le> - 1"
  by (simp add: get_user_info_def alice_api_def Let_def returned_def limiter_def slice_upto_def)

end
